theory Spec2Isabelle
  imports Main
begin

section \<open>Text\<close>

text \<open>
  A Python \<open>str\<close> is a sequence of Unicode code points, so a str is a list of
  natural numbers (HOL's \<open>char\<close> is a byte and cannot hold U+0600). An ASCII literal
  of the source is written \<open>lit ''...''\<close>.
\<close>

type_synonym codepoint = nat
type_synonym str = "codepoint list"

definition lit :: "string \<Rightarrow> str" where
  "lit s = map of_char s"

text \<open>
  The tables of the Unicode database that \<open>re\<close> and the \<open>str\<close> methods consult
  are not part of the source file; they are parameters.
\<close>

record unicode =
  isalnum :: "codepoint \<Rightarrow> bool"    \<comment> \<open>\<open>str.isalnum\<close> on one character\<close>
  isspace :: "codepoint \<Rightarrow> bool"    \<comment> \<open>\<open>str.isspace\<close> on one character\<close>
  lower :: "str \<Rightarrow> str"            \<comment> \<open>\<open>str.lower\<close>\<close>

text \<open>\<open>s.strip()\<close>: leading and trailing whitespace removed.\<close>

definition strip :: "unicode \<Rightarrow> str \<Rightarrow> str" where
  "strip u s = rev (dropWhile (isspace u) (rev (dropWhile (isspace u) s)))"

text \<open>\<open>sep.join(parts)\<close>.\<close>

fun join :: "str \<Rightarrow> str list \<Rightarrow> str" where
  "join sep [] = []"
| "join sep [p] = p"
| "join sep (p # q # ps) = p @ sep @ join sep (q # ps)"

text \<open>\<open>str(n)\<close> for a non-negative integer: its decimal digits.\<close>

fun str_nat :: "nat \<Rightarrow> str" where
  "str_nat n = (if n < 10 then [48 + n] else str_nat (n div 10) @ [48 + n mod 10])"

declare str_nat.simps [simp del]

section \<open>Identity and normalisation\<close>

text \<open>
  \<^verbatim>\<open>re.sub(r'[^\w\-\_\u0600-\u06FF ]', '_', name)\<close>. In a \<open>str\<close> pattern \<open>\w\<close> is an
  alphanumeric character or the underscore (95); the class also lists the hyphen (45),
  the underscore again, the range U+0600 to U+06FF and the space (32). Every
  character outside the class is one match and is replaced by the underscore.
\<close>

definition word_char :: "unicode \<Rightarrow> codepoint \<Rightarrow> bool" where
  "word_char u c = (isalnum u c \<or> c = 95)"

definition in_class :: "unicode \<Rightarrow> codepoint \<Rightarrow> bool" where
  "in_class u c = (word_char u c \<or> c = 45 \<or> c = 95 \<or> (1536 \<le> c \<and> c \<le> 1791) \<or> c = 32)"

fun sanitize_filename :: "unicode \<Rightarrow> str \<Rightarrow> str" where
  "sanitize_filename u [] = []"
| "sanitize_filename u (c # cs) =
     (if in_class u c then c else 95) # sanitize_filename u cs"

text \<open>An instance of the tables, restricted to ASCII, for evaluating examples.\<close>

definition ascii_lower :: "codepoint \<Rightarrow> codepoint" where
  "ascii_lower c = (if 65 \<le> c \<and> c \<le> 90 then c + 32 else c)"

definition ascii :: unicode where
  "ascii = \<lparr> isalnum = (\<lambda>c. (48 \<le> c \<and> c \<le> 57) \<or> (65 \<le> c \<and> c \<le> 90) \<or> (97 \<le> c \<and> c \<le> 122)),
             isspace = (\<lambda>c. (9 \<le> c \<and> c \<le> 13) \<or> (28 \<le> c \<and> c \<le> 32)),
             lower = map ascii_lower \<rparr>"

section \<open>Containers and paths\<close>

text \<open>
  A \<open>dict\<close> keeps its keys in insertion order; assigning to a key that is present
  replaces the value where it stands, assigning to a new key appends.
\<close>

fun dict_set :: "('k \<times> 'v) list \<Rightarrow> 'k \<Rightarrow> 'v \<Rightarrow> ('k \<times> 'v) list" where
  "dict_set [] k v = [(k, v)]"
| "dict_set ((k', v') # d) k v = (if k' = k then (k, v) # d else (k', v') # dict_set d k v)"

text \<open>
  \<open>os.path.join\<close> on a POSIX system (the separator is 47): a component that starts
  with the separator discards what came before it; otherwise it is appended, with a
  separator unless the path so far is empty or ends with one.
\<close>

definition path_join2 :: "str \<Rightarrow> str \<Rightarrow> str" where
  "path_join2 path b =
     (if b \<noteq> [] \<and> hd b = 47 then b
      else if path = [] \<or> last path = 47 then path @ b
      else path @ [47] @ b)"

definition os_path_join :: "str \<Rightarrow> str list \<Rightarrow> str" where
  "os_path_join a ps = foldl path_join2 a ps"

section \<open>The world outside the program\<close>

text \<open>
  A parsed document is modelled by the answers to the queries the source puts to it.
  The navigation menu: \<open>find_all("li", class_="c-header__supercat")\<close>, and inside
  each the title link (\<open>find\<close>, absent is \<open>None\<close>), the tabs, each with its title
  and its links; a link has its text and may lack the \<open>href\<close> attribute.
\<close>

record menu_link =
  link_text :: str
  link_href :: "str option"

record menu_tab =
  tab_title :: "str option"
  tab_links :: "menu_link list"

record supercat =
  supercat_link :: "str option"
  supercat_tabs :: "menu_tab list"

text \<open>
  A row of the specification table: the text of its title element when there is one,
  and the texts of its value elements.
\<close>

record spec_item =
  item_title :: "str option"
  item_values :: "str list"

text \<open>
  The fields hold the \<open>.text\<close> of the element found by each marker (\<open>None\<close> when
  \<open>find\<close> finds nothing); \<open>gallery_images\<close> holds the \<open>src\<close> attribute of each
  gallery image tag, in document order.
\<close>

record soup =
  supercats :: "supercat list"
  features_subtitle :: "str option"
  selling_price :: "str option"
  rrp_price :: "str option"
  discount_percent_value :: "str option"
  features_description :: "str option"
  specs_table :: "spec_item list option"
  features_content :: "str option"
  gallery_images :: "str option list"

text \<open>
  A product card of the browser: reading \<open>data-product-id\<close> can fail on a stale
  element; \<open>find_element\<close> of the image container can fail; the container's
  \<open>href\<close> may be absent.
\<close>

datatype link_lookup = NoSuchElement | Href "str option"

datatype card = Stale | Card "str option" link_lookup

text \<open>
  A browsing session: the height of the page when it is opened, and after the
  \<open>n\<close>-th scroll (counted from 0) the cards found on the page and its height.
\<close>

record session =
  initial_height :: int
  after_scroll :: "nat \<Rightarrow> card list \<times> int"

type_synonym bytes = "nat list"

text \<open>
  What a request for an image does: \<open>requests.get\<close> or \<open>raise_for_status\<close>
  raises; or the body breaks off (\<open>iter_content\<close> raises) after some bytes; or the
  whole body arrives.
\<close>

datatype download = Failed | Interrupted bytes | Complete bytes

text \<open>The calls the program makes to the file system: \<open>os.makedirs\<close> and \<open>open\<close> for writing.\<close>

datatype os_call = Makedirs str | OpenWrite str

text \<open>
  Everything the program reads: the configuration file, the Unicode tables,
  \<open>urllib.parse.urljoin\<close> (\<open>None\<close> where it raises \<open>ValueError\<close>), the site (a
  request for a page fails with a \<open>RequestException\<close> where the function gives
  \<open>None\<close>), and the file system: \<open>os_refuses w log c\<close> says that the call \<open>c\<close>
  raises an \<open>OSError\<close> (a missing parent directory, a name that is taken, a
  permission) when the calls of \<open>log\<close> have been made before it.
\<close>

record world =
  tables :: unicode
  base_url :: str
  products_per_subcategory :: int
  urljoin :: "str \<Rightarrow> str \<Rightarrow> str option"
  pages :: "str \<Rightarrow> soup option"
  downloads :: "str \<Rightarrow> download"
  browser :: "str \<Rightarrow> session"
  os_refuses :: "os_call list \<Rightarrow> os_call \<Rightarrow> bool"

section \<open>The state the program writes\<close>

text \<open>The document written for one product (the \<open>metadata\<close> dictionary).\<close>

record metadata =
  product_id :: str
  main_category :: str
  sub_category :: str
  nested_category :: str
  title :: str
  price :: "str option"
  old_price :: "str option"
  discount :: "str option"
  description :: "str option"
  specifications :: "(str \<times> str) list"
  additional_details :: "str option"
  images :: "str list"

text \<open>
  The tables. The surrogate \<open>id\<close> columns are left out: nothing reads them. The
  \<open>specs\<close> and \<open>images\<close> columns hold the values whose JSON text the source
  stores. A column that the \<open>INSERT\<close> does not name is \<open>NULL\<close>.
\<close>

record category_row =
  c_main_category :: str
  c_sub_category :: str
  c_url :: "str option"

record product_row =
  p_main_category :: str
  p_sub_category :: str
  p_nested_category :: str
  p_product_id :: str
  p_title :: "str option"
  p_subtitle :: "str option"
  p_price :: "str option"
  p_old_price :: "str option"
  p_discount :: "str option"
  p_description :: "str option"
  p_additional_details :: "str option"
  p_specs :: "(str \<times> str) list"
  p_images :: "str list"
  p_json_path :: str

text \<open>
  The database file as a process finds it (a table may not exist yet), and the
  database once the module has been initialised (both tables exist).
\<close>

record stored_db =
  stored_categories :: "category_row list option"
  stored_products :: "product_row list option"

record db =
  categories :: "category_row list"
  products :: "product_row list"

datatype file_content = JsonFile metadata | ImageFile bytes

text \<open>
  The database, the files written, the URLs for which a browsing session was opened,
  in order, and the calls made to the file system so far, in order, refused or not.
\<close>

record state =
  db :: db
  files :: "str \<rightharpoonup> file_content"
  sessions :: "str list"
  os_log :: "os_call list"

datatype error = RequestException | AttributeError | KeyError | ValueError | OSError

datatype outcome = Ok | Raised error

section \<open>Module initialisation\<close>

text \<open>
  \<open>CREATE TABLE IF NOT EXISTS categories\<close>; \<open>DROP TABLE IF EXISTS products\<close>;
  \<open>CREATE TABLE IF NOT EXISTS products\<close>.
\<close>

definition module_init :: "stored_db \<Rightarrow> db" where
  "module_init f =
     \<lparr> categories = (case stored_categories f of None \<Rightarrow> [] | Some rows \<Rightarrow> rows),
       products = [] \<rparr>"

text \<open>What the committed database is for the next process.\<close>

definition stored :: "db \<Rightarrow> stored_db" where
  "stored d = \<lparr> stored_categories = Some (categories d), stored_products = Some (products d) \<rparr>"

text \<open>\<open>INSERT OR IGNORE\<close> under the \<open>UNIQUE\<close> constraint of each table.\<close>

definition category_key :: "category_row \<Rightarrow> str \<times> str" where
  "category_key r = (c_main_category r, c_sub_category r)"

definition product_key :: "product_row \<Rightarrow> str \<times> str \<times> str \<times> str" where
  "product_key r = (p_main_category r, p_sub_category r, p_nested_category r, p_product_id r)"

definition insert_category :: "category_row \<Rightarrow> db \<Rightarrow> db" where
  "insert_category r d =
     (if category_key r \<in> set (map category_key (categories d)) then d
      else d\<lparr>categories := categories d @ [r]\<rparr>)"

definition insert_product :: "product_row \<Rightarrow> db \<Rightarrow> db" where
  "insert_product r d =
     (if product_key r \<in> set (map product_key (products d)) then d
      else d\<lparr>products := products d @ [r]\<rparr>)"

section \<open>Fetching\<close>

text \<open>
  \<open>get_soup\<close>: \<open>requests.get\<close> and \<open>raise_for_status\<close> raise a
  \<open>RequestException\<close>; so does a URL that is \<open>None\<close>.
\<close>

definition get_soup :: "world \<Rightarrow> str option \<Rightarrow> error + soup" where
  "get_soup w url =
     (case url of
        None \<Rightarrow> Inl RequestException
      | Some a \<Rightarrow> (case pages w a of None \<Rightarrow> Inl RequestException | Some page \<Rightarrow> Inr page))"

text \<open>A call to the file system: whether it is refused, and the state with the call recorded.\<close>

definition refused :: "world \<Rightarrow> os_call \<Rightarrow> state \<Rightarrow> bool" where
  "refused w c st = os_refuses w (os_log st) c"

definition logged :: "os_call \<Rightarrow> state \<Rightarrow> state" where
  "logged c st = st\<lparr>os_log := os_log st @ [c]\<rparr>"

text \<open>
  \<open>save_image\<close>. \<open>os.makedirs\<close> stands before the \<open>try\<close>, so its \<open>OSError\<close>
  leaves the function; so does the one of \<open>open\<close>, which \<open>except
  RequestException\<close> does not catch. The \<open>RequestException\<close> is caught and \<open>None\<close>
  returned: before the file is opened when the request itself fails, after the file
  has been opened and the bytes received so far written when the body breaks off.
\<close>

definition save_image ::
  "world \<Rightarrow> str \<Rightarrow> str \<Rightarrow> str \<Rightarrow> state \<Rightarrow> (error + str option) \<times> state" where
  "save_image w url folder filename st =
     (if refused w (Makedirs folder) st then (Inl OSError, logged (Makedirs folder) st)
      else
        let st1 = logged (Makedirs folder) st;
            file_path = os_path_join folder [filename]
        in case downloads w url of
             Failed \<Rightarrow> (Inr None, st1)
           | Interrupted part \<Rightarrow>
               if refused w (OpenWrite file_path) st1
               then (Inl OSError, logged (OpenWrite file_path) st1)
               else (Inr None,
                     (logged (OpenWrite file_path) st1)
                       \<lparr>files := (files st1)(file_path \<mapsto> ImageFile part)\<rparr>)
           | Complete content \<Rightarrow>
               if refused w (OpenWrite file_path) st1
               then (Inl OSError, logged (OpenWrite file_path) st1)
               else (Inr (Some file_path),
                     (logged (OpenWrite file_path) st1)
                       \<lparr>files := (files st1)(file_path \<mapsto> ImageFile content)\<rparr>))"

section \<open>Extraction\<close>

text \<open>The loop over the rows of the specification table.\<close>

fun spec_items :: "unicode \<Rightarrow> spec_item list \<Rightarrow> (str \<times> str) list \<Rightarrow> (str \<times> str) list" where
  "spec_items u [] specs = specs"
| "spec_items u (item # items) specs =
     (case item_title item of
        Some key \<Rightarrow>
          spec_items u items
            (dict_set specs (strip u key) (join (lit '', '') (map (strip u) (item_values item))))
      | None \<Rightarrow> spec_items u items specs)"

definition product_folder :: "world \<Rightarrow> str \<Rightarrow> str \<Rightarrow> str \<Rightarrow> str \<Rightarrow> str" where
  "product_folder w main sub nested pid =
     os_path_join (lit ''assets'')
       [sanitize_filename (tables w) main, sanitize_filename (tables w) sub,
        sanitize_filename (tables w) nested, pid]"

definition img_filename :: "str \<Rightarrow> nat \<Rightarrow> str" where
  "img_filename pid idx = pid @ lit ''_image_'' @ str_nat (idx + 1) @ lit ''.jpg''"

text \<open>
  The loop over \<open>enumerate(image_tags)\<close>: \<open>idx\<close> counts every tag, also those
  without a \<open>src\<close> and those whose download fails. A \<open>ValueError\<close> of \<open>urljoin\<close>
  or an \<open>OSError\<close> of \<open>save_image\<close> ends the loop and the extraction; what was
  written before stays.
\<close>

fun save_images ::
  "world \<Rightarrow> str \<Rightarrow> str \<Rightarrow> nat \<Rightarrow> str option list \<Rightarrow> str list \<Rightarrow> state \<Rightarrow>
     (error + str list) \<times> state" where
  "save_images w folder pid idx [] imgs st = (Inr imgs, st)"
| "save_images w folder pid idx (src # tags) imgs st =
     (case src of
        None \<Rightarrow> save_images w folder pid (idx + 1) tags imgs st
      | Some img_url \<Rightarrow>
          if img_url = [] then save_images w folder pid (idx + 1) tags imgs st
          else
            (case urljoin w (base_url w) img_url of
               None \<Rightarrow> (Inl ValueError, st)
             | Some url \<Rightarrow>
                 (case save_image w url folder (img_filename pid idx) st of
                    (res, st') \<Rightarrow>
                      (case res of
                         Inl e \<Rightarrow> (Inl e, st')
                       | Inr None \<Rightarrow> save_images w folder pid (idx + 1) tags imgs st'
                       | Inr (Some saved_path) \<Rightarrow>
                           if saved_path = []
                           then save_images w folder pid (idx + 1) tags imgs st'
                           else save_images w folder pid (idx + 1) tags (imgs @ [saved_path]) st'))))"

text \<open>The \<open>metadata\<close> dictionary built from the page and the saved image paths.\<close>

definition page_metadata ::
  "world \<Rightarrow> soup \<Rightarrow> str \<Rightarrow> str \<Rightarrow> str \<Rightarrow> str \<Rightarrow> str list \<Rightarrow> metadata" where
  "page_metadata w page main sub nested pid imgs =
     \<lparr> product_id = pid,
       main_category = main,
       sub_category = sub,
       nested_category = nested,
       title = (case features_subtitle page of
                  Some t \<Rightarrow> strip (tables w) t | None \<Rightarrow> lit ''No Title Found''),
       price = map_option (strip (tables w)) (selling_price page),
       old_price = map_option (strip (tables w)) (rrp_price page),
       discount = map_option (strip (tables w)) (discount_percent_value page),
       description = map_option (strip (tables w)) (features_description page),
       specifications = (case specs_table page of
                           Some items \<Rightarrow> spec_items (tables w) items [] | None \<Rightarrow> []),
       additional_details = map_option (strip (tables w)) (features_content page),
       images = imgs \<rparr>"

definition json_path :: "world \<Rightarrow> str \<Rightarrow> str \<Rightarrow> str \<Rightarrow> str \<Rightarrow> str" where
  "json_path w main sub nested pid =
     os_path_join (product_folder w main sub nested pid) [pid @ lit ''.json'']"

text \<open>The values bound by the \<open>INSERT\<close> into \<open>products\<close>.\<close>

definition product_values :: "metadata \<Rightarrow> str \<Rightarrow> product_row" where
  "product_values md path =
     \<lparr> p_main_category = main_category md,
       p_sub_category = sub_category md,
       p_nested_category = nested_category md,
       p_product_id = product_id md,
       p_title = Some (title md),
       p_subtitle = None,
       p_price = price md,
       p_old_price = old_price md,
       p_discount = discount md,
       p_description = description md,
       p_additional_details = additional_details md,
       p_specs = specifications md,
       p_images = images md,
       p_json_path = path \<rparr>"

text \<open>
  \<open>extract_product_metadata\<close>. It raises when the page cannot be fetched, when
  \<open>os.makedirs\<close> of the product folder is refused, when the image loop raises, and
  when \<open>open\<close> of the document is refused (as it is for an identity with a slash in
  it, whose document lies in a directory nobody has created); the state reached then
  is kept. Writing into an open file and the \<open>INSERT\<close> are taken to succeed.
\<close>

definition extract_product_metadata ::
  "world \<Rightarrow> str option \<Rightarrow> str \<Rightarrow> str \<Rightarrow> str \<Rightarrow> str \<Rightarrow> state \<Rightarrow> outcome \<times> state" where
  "extract_product_metadata w product_url main sub nested pid st =
     (case get_soup w product_url of
        Inl e \<Rightarrow> (Raised e, st)
      | Inr page \<Rightarrow>
          if refused w (Makedirs (product_folder w main sub nested pid)) st
          then (Raised OSError, logged (Makedirs (product_folder w main sub nested pid)) st)
          else
            (case save_images w (product_folder w main sub nested pid) pid 0
                    (gallery_images page) []
                    (logged (Makedirs (product_folder w main sub nested pid)) st) of
               (res, st1) \<Rightarrow>
                 (case res of
                    Inl e \<Rightarrow> (Raised e, st1)
                  | Inr imgs \<Rightarrow>
                      let md = page_metadata w page main sub nested pid imgs;
                          path = json_path w main sub nested pid
                      in if refused w (OpenWrite path) st1
                         then (Raised OSError, logged (OpenWrite path) st1)
                         else
                           let st2 = (logged (OpenWrite path) st1)
                                       \<lparr>files := (files st1)(path \<mapsto> JsonFile md)\<rparr>
                           in (Ok, st2\<lparr>db := insert_product (product_values md path) (db st2)\<rparr>))))"

section \<open>Enumeration\<close>

text \<open>
  The local variables of \<open>crawl_products\<close>, the number of scroll actions so far,
  and the calls of \<open>extract_product_metadata\<close> made so far (identity, detail URL
  and how the call ended), with the state the calls have written.
\<close>

record crawl_state =
  crawled_count :: int
  products_seen :: "str set"
  last_height :: int
  scrolls :: nat
  calls :: "(str \<times> str option \<times> outcome) list"
  written :: state

text \<open>
  The body of the \<open>try\<close> for one card. An exception (a stale card, no image
  container, a failed extraction) is caught by \<open>except Exception\<close> and the loop goes
  on; the identity is recorded and counted before the extraction is called.
\<close>

definition process_card :: "world \<Rightarrow> str \<Rightarrow> str \<Rightarrow> str \<Rightarrow> card \<Rightarrow> crawl_state \<Rightarrow> crawl_state" where
  "process_card w main sub nested c s =
     (case c of
        Stale \<Rightarrow> s
      | Card None lk \<Rightarrow> s
      | Card (Some pid) lk \<Rightarrow>
          if pid \<noteq> [] \<and> pid \<notin> products_seen s then
            (case lk of
               NoSuchElement \<Rightarrow> s
             | Href product_link \<Rightarrow>
                 (case extract_product_metadata w product_link main sub nested pid (written s) of
                    (res, st') \<Rightarrow>
                      s\<lparr>products_seen := insert pid (products_seen s),
                        crawled_count := crawled_count s + 1,
                        calls := calls s @ [(pid, product_link, res)],
                        written := st'\<rparr>))
          else s)"

text \<open>The \<open>for\<close> loop over the cards, with its \<open>break\<close> at the cap.\<close>

fun process_cards :: "world \<Rightarrow> str \<Rightarrow> str \<Rightarrow> str \<Rightarrow> card list \<Rightarrow> crawl_state \<Rightarrow> crawl_state" where
  "process_cards w main sub nested [] s = s"
| "process_cards w main sub nested (c # cs) s =
     (if crawled_count s \<ge> products_per_subcategory w then s
      else process_cards w main sub nested cs (process_card w main sub nested c s))"

text \<open>
  The \<open>while\<close> loop. It need not end (a page can grow for ever without a new
  identity), so it runs on fuel, the number of scroll actions allowed: \<open>None\<close>
  means that the loop wanted one more.
\<close>

fun crawl_loop ::
  "world \<Rightarrow> str \<Rightarrow> str \<Rightarrow> str \<Rightarrow> session \<Rightarrow> nat \<Rightarrow> crawl_state \<Rightarrow> crawl_state option" where
  "crawl_loop w main sub nested ses 0 s =
     (if crawled_count s < products_per_subcategory w then None else Some s)"
| "crawl_loop w main sub nested ses (Suc fuel) s =
     (if crawled_count s < products_per_subcategory w then
        (case after_scroll ses (scrolls s) of
           (product_elements, new_height) \<Rightarrow>
             let s1 = process_cards w main sub nested product_elements
                        (s\<lparr>scrolls := scrolls s + 1\<rparr>)
             in if new_height = last_height s1 then Some s1
                else crawl_loop w main sub nested ses fuel (s1\<lparr>last_height := new_height\<rparr>))
      else Some s)"

definition crawl_products ::
  "world \<Rightarrow> nat \<Rightarrow> str \<Rightarrow> str \<Rightarrow> str \<Rightarrow> str \<Rightarrow> state \<Rightarrow> crawl_state option" where
  "crawl_products w fuel subcategory_url main sub nested st =
     crawl_loop w main sub nested (browser w subcategory_url) fuel
       \<lparr> crawled_count = 0,
         products_seen = {},
         last_height = initial_height (browser w subcategory_url),
         scrolls = 0,
         calls = [],
         written = st\<lparr>sessions := sessions st @ [subcategory_url]\<rparr> \<rparr>"

section \<open>Category discovery\<close>

text \<open>
  \<open>parse_categories\<close>. \<open>find(...)\<close> gives \<open>None\<close> for an absent element and
  \<open>.text\<close> on \<open>None\<close> raises \<open>AttributeError\<close>; \<open>sub_sub["href"]\<close> raises
  \<open>KeyError\<close> when the attribute is absent; \<open>urljoin\<close> raises \<open>ValueError\<close>
  on an \<open>href\<close> it cannot parse. Nothing catches them, so the function ends
  there and the dictionary built so far is not returned.
\<close>

type_synonym leaves = "(str \<times> str) list"
type_synonym category_tree = "(str \<times> (str \<times> leaves) list) list"

fun parse_links :: "world \<Rightarrow> menu_link list \<Rightarrow> leaves \<Rightarrow> error + leaves" where
  "parse_links w [] acc = Inr acc"
| "parse_links w (sub_sub # rest) acc =
     (case link_href sub_sub of
        None \<Rightarrow> Inl KeyError
      | Some h \<Rightarrow>
          (case urljoin w (base_url w) h of
             None \<Rightarrow> Inl ValueError
           | Some sub_sub_url \<Rightarrow>
               parse_links w rest (acc @ [(strip (tables w) (link_text sub_sub), sub_sub_url)])))"

fun parse_tabs ::
  "world \<Rightarrow> menu_tab list \<Rightarrow> (str \<times> leaves) list \<Rightarrow> error + (str \<times> leaves) list" where
  "parse_tabs w [] acc = Inr acc"
| "parse_tabs w (sub_cat # rest) acc =
     (case tab_title sub_cat of
        None \<Rightarrow> Inl AttributeError
      | Some t \<Rightarrow>
          (case parse_links w (tab_links sub_cat) [] of
             Inl e \<Rightarrow> Inl e
           | Inr ls \<Rightarrow> parse_tabs w rest (dict_set acc (strip (tables w) t) ls)))"

fun parse_supercats :: "world \<Rightarrow> supercat list \<Rightarrow> category_tree \<Rightarrow> error + category_tree" where
  "parse_supercats w [] acc = Inr acc"
| "parse_supercats w (main_cat # rest) acc =
     (case supercat_link main_cat of
        None \<Rightarrow> Inl AttributeError
      | Some t \<Rightarrow>
          (case parse_tabs w (supercat_tabs main_cat) [] of
             Inl e \<Rightarrow> Inl e
           | Inr subs \<Rightarrow> parse_supercats w rest (dict_set acc (strip (tables w) t) subs)))"

definition parse_categories :: "world \<Rightarrow> soup \<Rightarrow> error + category_tree" where
  "parse_categories w page = parse_supercats w (supercats page) []"

section \<open>The run\<close>

text \<open>The three nested \<open>for\<close> loops visit the leaves in this order.\<close>

definition leaf_list :: "category_tree \<Rightarrow> (str \<times> str \<times> str \<times> str) list" where
  "leaf_list cats =
     concat (map (\<lambda>(main, subs).
       concat (map (\<lambda>(sub, ls). map (\<lambda>(nested, url). (main, sub, nested, url)) ls) subs)) cats)"

fun crawl_leaves :: "world \<Rightarrow> nat \<Rightarrow> (str \<times> str \<times> str \<times> str) list \<Rightarrow> state \<Rightarrow> state option" where
  "crawl_leaves w fuel [] st = Some st"
| "crawl_leaves w fuel ((main, sub, nested, sub_sub_url) # rest) st =
     (case crawl_products w fuel sub_sub_url main sub nested
             (st\<lparr>db := insert_category
                          \<lparr>c_main_category = main, c_sub_category = sub, c_url = Some sub_sub_url\<rparr>
                          (db st)\<rparr>) of
        None \<Rightarrow> None
      | Some s \<Rightarrow> crawl_leaves w fuel rest (written s))"

definition affirmative :: "world \<Rightarrow> str \<Rightarrow> bool" where
  "affirmative w answer = (lower (tables w) (strip (tables w) answer) = lit ''yes'')"

text \<open>
  \<open>crawl_categories\<close>, with the operator's answer to the prompt as an argument. An
  exception of \<open>get_soup\<close> or \<open>parse_categories\<close> ends the run.
\<close>

definition crawl_categories :: "world \<Rightarrow> str \<Rightarrow> nat \<Rightarrow> state \<Rightarrow> (outcome \<times> state) option" where
  "crawl_categories w answer fuel st =
     (case get_soup w (Some (base_url w)) of
        Inl e \<Rightarrow> Some (Raised e, st)
      | Inr page \<Rightarrow>
          (case parse_categories w page of
             Inl e \<Rightarrow> Some (Raised e, st)
           | Inr cats \<Rightarrow>
               if \<not> affirmative w answer then Some (Ok, st)
               else map_option (Pair Ok) (crawl_leaves w fuel (leaf_list cats) st)))"

text \<open>
  One process: the module is initialised on the database file it finds, then
  \<open>crawl_categories\<close> runs, on the files and after the file system calls of the
  processes before it.
\<close>

definition run_script ::
  "world \<Rightarrow> str \<Rightarrow> nat \<Rightarrow> stored_db \<Rightarrow> (str \<rightharpoonup> file_content) \<Rightarrow> os_call list \<Rightarrow>
     (outcome \<times> state) option" where
  "run_script w answer fuel f fs log =
     crawl_categories w answer fuel
       \<lparr> db = module_init f, files = fs, sessions = [], os_log = log \<rparr>"

section \<open>A small shop, for evaluating examples\<close>

text \<open>
  The menu has one entry, Men, with one tab, Shirts, and two leaves under it. The
  Casual page shows A1 after the first scroll, A2 as well after the second, and a
  second card for A1 after the third. The detail page of A1 cannot be fetched; that of
  A2 has a title, three gallery images, of which the second cannot be downloaded, and
  nothing else; that of B1 has no marker at all. The file system refuses nothing.
\<close>

definition blank_page :: soup where
  "blank_page =
     \<lparr> supercats = [], features_subtitle = None, selling_price = None, rrp_price = None,
       discount_percent_value = None, features_description = None, specs_table = None,
       features_content = None, gallery_images = [] \<rparr>"

definition nav_page :: soup where
  "nav_page = blank_page
     \<lparr> supercats :=
         [\<lparr> supercat_link = Some (lit '' Men ''),
            supercat_tabs =
              [\<lparr> tab_title = Some (lit ''Shirts''),
                 tab_links =
                   [\<lparr> link_text = lit ''Casual'', link_href = Some (lit ''/casual'') \<rparr>,
                    \<lparr> link_text = lit ''Formal'', link_href = Some (lit ''/formal'') \<rparr>] \<rparr>] \<rparr>] \<rparr>"

definition gallery_page :: soup where
  "gallery_page = blank_page
     \<lparr> features_subtitle := Some (lit '' Shirt ''),
       gallery_images := [Some (lit ''/1''), Some (lit ''/2''), Some (lit ''/3'')] \<rparr>"

definition card_A1 :: card where
  "card_A1 = Card (Some (lit ''A1'')) (Href (Some (lit ''x/A1'')))"

definition card_A2 :: card where
  "card_A2 = Card (Some (lit ''A2'')) (Href (Some (lit ''x/A2'')))"

definition casual_session :: session where
  "casual_session =
     \<lparr> initial_height = 100,
       after_scroll = (\<lambda>n. if n = 0 then ([card_A1], 200)
                            else if n = 1 then ([card_A1, card_A2], 300)
                            else ([card_A1, card_A2, card_A1], 400)) \<rparr>"

definition empty_session :: session where
  "empty_session = \<lparr> initial_height = 100, after_scroll = (\<lambda>n. ([], 100)) \<rparr>"

definition shop :: world where
  "shop =
     \<lparr> tables = ascii,
       base_url = lit ''x'',
       products_per_subcategory = 2,
       urljoin = (\<lambda>base rel. Some (base @ rel)),
       pages = (\<lambda>a. if a = lit ''x'' then Some nav_page
                      else if a = lit ''x/A2'' then Some gallery_page
                      else if a = lit ''x/B1'' then Some blank_page
                      else None),
       downloads = (\<lambda>a. if a = lit ''x/1'' then Complete [1]
                          else if a = lit ''x/3'' then Complete [3]
                          else Failed),
       browser = (\<lambda>a. if a = lit ''x/casual'' then casual_session else empty_session),
       os_refuses = (\<lambda>log c. False) \<rparr>"

definition state0 :: state where
  "state0 = \<lparr> db = \<lparr> categories = [], products = [] \<rparr>, files = Map.empty, sessions = [],
              os_log = [] \<rparr>"

text \<open>
  A menu whose second entry has no title link, a menu whose only leaf has no
  \<open>href\<close>, and a database file left by an earlier run with one product row.
\<close>

definition broken_href_page :: soup where
  "broken_href_page = blank_page
     \<lparr> supercats :=
         [\<lparr> supercat_link = Some (lit ''Men''),
            supercat_tabs =
              [\<lparr> tab_title = Some (lit ''Shirts''),
                 tab_links = [\<lparr> link_text = lit ''Casual'', link_href = None \<rparr>] \<rparr>] \<rparr>] \<rparr>"

definition broken_nav_page :: soup where
  "broken_nav_page = nav_page
     \<lparr> supercats := supercats nav_page @ [\<lparr> supercat_link = None, supercat_tabs = [] \<rparr>] \<rparr>"

definition old_row :: product_row where
  "old_row = product_values (page_metadata shop blank_page (lit ''Men'') (lit ''Shirts'')
                               (lit ''Casual'') (lit ''B1'') []) (lit ''B1.json'')"

definition old_db :: stored_db where
  "old_db = \<lparr> stored_categories = Some [], stored_products = Some [old_row] \<rparr>"


text \<open>
  A second shop, whose product identities have slashes in them. Its menu has one leaf,
  whose page shows two cards, \<open>a/b\<close> and \<open>a/b/a\<close>, both with the detail page
  of B1. Its file system creates every directory asked for and refuses to open a file
  whose directory has not been created: \<open>parent\<close> is \<open>os.path.dirname\<close> of a
  path that has a slash, and a directory exists when \<open>os.makedirs\<close> was called on it
  or on a path below it.
\<close>

definition slash_nav_page :: soup where
  "slash_nav_page = blank_page
     \<lparr> supercats :=
         [\<lparr> supercat_link = Some (lit ''M''),
            supercat_tabs =
              [\<lparr> tab_title = Some (lit ''S''),
                 tab_links = [\<lparr> link_text = lit ''N'', link_href = Some (lit ''/n'') \<rparr>] \<rparr>] \<rparr>] \<rparr>"

definition slash_session :: session where
  "slash_session =
     \<lparr> initial_height = 100,
       after_scroll = (\<lambda>n. ([Card (Some (lit ''a/b'')) (Href (Some (lit ''x/B1''))),
                               Card (Some (lit ''a/b/a'')) (Href (Some (lit ''x/B1'')))], 100)) \<rparr>"

definition parent :: "str \<Rightarrow> str" where
  "parent p = rev (drop 1 (dropWhile (\<lambda>c. c \<noteq> 47) (rev p)))"

definition made_dirs :: "os_call list \<Rightarrow> str list" where
  "made_dirs log = concat (map (\<lambda>c. case c of Makedirs d \<Rightarrow> [d] | OpenWrite p \<Rightarrow> []) log)"

definition dir_exists :: "os_call list \<Rightarrow> str \<Rightarrow> bool" where
  "dir_exists log d = list_ex (\<lambda>m. m = d \<or> take (length d + 1) m = d @ [47]) (made_dirs log)"

definition needs_directory :: "os_call list \<Rightarrow> os_call \<Rightarrow> bool" where
  "needs_directory log c =
     (case c of Makedirs d \<Rightarrow> False | OpenWrite p \<Rightarrow> \<not> dir_exists log (parent p))"

definition slash_shop :: world where
  "slash_shop = shop
     \<lparr> pages := (\<lambda>a. if a = lit ''x'' then Some slash_nav_page
                       else if a = lit ''x/B1'' then Some blank_page
                       else None),
       browser := (\<lambda>a. slash_session),
       os_refuses := needs_directory \<rparr>"

text \<open>The first shop on the same file system.\<close>

definition strict_shop :: world where
  "strict_shop = shop \<lparr> os_refuses := needs_directory \<rparr>"

definition empty_db :: stored_db where
  "empty_db = \<lparr> stored_categories = None, stored_products = None \<rparr>"

section \<open>Defective menus\<close>

text \<open>
  The exception a menu makes \<open>parse_categories\<close> raise, written down from the
  order in which the function reads the nodes: an entry is read title link first, then
  its tabs in order; a tab title first, then its links in order; a link \<open>href\<close>
  first, then \<open>urljoin\<close>. A missing title link or tab title gives
  \<open>AttributeError\<close>, a missing \<open>href\<close> gives \<open>KeyError\<close>, an \<open>href\<close> that
  \<open>urljoin\<close> rejects gives \<open>ValueError\<close>; the first defective node decides.
\<close>

fun first_error :: "('a \<Rightarrow> error option) \<Rightarrow> 'a list \<Rightarrow> error option" where
  "first_error f [] = None"
| "first_error f (x # xs) = (case f x of Some e \<Rightarrow> Some e | None \<Rightarrow> first_error f xs)"

definition link_error :: "world \<Rightarrow> menu_link \<Rightarrow> error option" where
  "link_error w l =
     (case link_href l of
        None \<Rightarrow> Some KeyError
      | Some h \<Rightarrow> (case urljoin w (base_url w) h of None \<Rightarrow> Some ValueError | Some url \<Rightarrow> None))"

definition tab_error :: "world \<Rightarrow> menu_tab \<Rightarrow> error option" where
  "tab_error w t =
     (case tab_title t of
        None \<Rightarrow> Some AttributeError
      | Some name \<Rightarrow> first_error (link_error w) (tab_links t))"

definition supercat_error :: "world \<Rightarrow> supercat \<Rightarrow> error option" where
  "supercat_error w m =
     (case supercat_link m of
        None \<Rightarrow> Some AttributeError
      | Some name \<Rightarrow> first_error (tab_error w) (supercat_tabs m))"

definition nav_error :: "world \<Rightarrow> soup \<Rightarrow> error option" where
  "nav_error w page = first_error (supercat_error w) (supercats page)"

section \<open>Conditions on the file system\<close>

text \<open>
  A call that the file system does not refuse once the calls of \<open>log\<close> have been
  made, whatever calls follow them; and a file system whose answer to a call does not
  depend on the calls made before.
\<close>

definition accepted_from :: "world \<Rightarrow> os_call list \<Rightarrow> os_call \<Rightarrow> bool" where
  "accepted_from w log c \<longleftrightarrow> (\<forall>later. \<not> os_refuses w (log @ later) c)"

definition history_free :: "world \<Rightarrow> bool" where
  "history_free w \<longleftrightarrow> (\<forall>log log' c. os_refuses w log c = os_refuses w log' c)"

text \<open>
  The file system gives the same answers to the calls \<open>cs\<close>, made one after the
  other, whether the calls of \<open>a\<close> or those of \<open>b\<close> were made before them.
\<close>

fun agree :: "world \<Rightarrow> os_call list \<Rightarrow> os_call list \<Rightarrow> os_call list \<Rightarrow> bool" where
  "agree w a b [] = True"
| "agree w a b (c # cs) =
     (os_refuses w a c = os_refuses w b c \<and> agree w (a @ [c]) (b @ [c]) cs)"

section \<open>Invariants of the enumeration\<close>

text \<open>The counter, the set of seen identities and the calls move together.\<close>

definition counted :: "crawl_state \<Rightarrow> bool" where
  "counted s \<longleftrightarrow>
     crawled_count s = int (length (calls s)) \<and>
     products_seen s = set (map fst (calls s)) \<and>
     distinct (map fst (calls s))"

text \<open>Every row of the table was there before the crawl or belongs to a call that ended normally.\<close>

definition rows_accounted :: "str \<Rightarrow> str \<Rightarrow> str \<Rightarrow> state \<Rightarrow> crawl_state \<Rightarrow> bool" where
  "rows_accounted main sub nested st s \<longleftrightarrow>
     (\<forall>r \<in> set (products (db (written s))).
        r \<in> set (products (db st)) \<or>
        (\<exists>pid link. (pid, link, Ok) \<in> set (calls s) \<and> product_key r = (main, sub, nested, pid)))"

text \<open>
  Two crawls agree: the same local variables and calls, and the same \<open>products\<close>
  table.
\<close>

definition crawl_sim :: "crawl_state \<Rightarrow> crawl_state \<Rightarrow> bool" where
  "crawl_sim s t \<longleftrightarrow>
     crawled_count s = crawled_count t \<and>
     products_seen s = products_seen t \<and>
     last_height s = last_height t \<and>
     scrolls s = scrolls t \<and>
     calls s = calls t \<and>
     products (db (written s)) = products (db (written t))"

definition same_products :: "state \<Rightarrow> state \<Rightarrow> bool" where
  "same_products a b \<longleftrightarrow> products (db a) = products (db b)"


section \<open>Properties of sanitize_filename\<close>

lemma in_class_underscore: "in_class u 95"
  by (simp add: in_class_def)

lemma length_sanitize_filename: "length (sanitize_filename u x) = length x"
  by (induction x) simp_all

lemma nth_sanitize_filename:
  "i < length x \<Longrightarrow>
   sanitize_filename u x ! i = (if in_class u (x ! i) then x ! i else 95)"
proof (induction x arbitrary: i)
  case Nil
  then show ?case by simp
next
  case (Cons c cs)
  then show ?case by (cases i) simp_all
qed

lemma sanitize_filename_idem:
  "sanitize_filename u (sanitize_filename u x) = sanitize_filename u x"
  by (induction x) (simp_all add: in_class_underscore)

text \<open>
  Claim C3. \<open>sanitize_filename\<close> is a total function on a str (the model has no error
  result because the source has no raising path on a \<open>str\<close>), it is idempotent, it
  keeps the length, and position by position it replaces exactly the characters
  outside the class (word characters, hyphen, underscore, U+0600 to U+06FF, space) by
  the underscore and keeps the others.
\<close>

theorem sanitize_filename_idempotent_total:
  "sanitize_filename u (sanitize_filename u x) = sanitize_filename u x \<and>
   length (sanitize_filename u x) = length x \<and>
   (\<forall>i < length x.
      (\<not> in_class u (x ! i) \<longrightarrow> sanitize_filename u x ! i = 95) \<and>
      (in_class u (x ! i) \<longrightarrow> sanitize_filename u x ! i = x ! i)) \<and>
   (\<forall>c. in_class u c = (isalnum u c \<or> c = 95 \<or> c = 45 \<or> (1536 \<le> c \<and> c \<le> 1791) \<or> c = 32))"
proof -
  have "\<forall>c. in_class u c = (isalnum u c \<or> c = 95 \<or> c = 45 \<or> (1536 \<le> c \<and> c \<le> 1791) \<or> c = 32)"
    by (auto simp: in_class_def word_char_def)
  then show ?thesis
    by (simp add: sanitize_filename_idem length_sanitize_filename nth_sanitize_filename)
qed

theorem sanitize_filename_idempotent_total_witness:
  "sanitize_filename ascii (lit ''a/b: c-d_e'') = lit ''a_b_ c-d_e'' \<and>
   sanitize_filename ascii (sanitize_filename ascii (lit ''a/b: c-d_e'')) = lit ''a_b_ c-d_e'' \<and>
   sanitize_filename ascii [1587, 47, 8364] = [1587, 95, 95]"
proof -
  have e: "sanitize_filename ascii (lit ''a/b: c-d_e'') = lit ''a_b_ c-d_e''"
    by (simp add: lit_def ascii_def in_class_def word_char_def)
  have f: "sanitize_filename ascii [1587, 47, 8364] = [1587, 95, 95]"
    by (simp add: ascii_def in_class_def word_char_def)
  from sanitize_filename_idempotent_total [of ascii "lit ''a/b: c-d_e''"]
  have "sanitize_filename ascii (sanitize_filename ascii (lit ''a/b: c-d_e'')) =
        sanitize_filename ascii (lit ''a/b: c-d_e'')"
    by blast
  with e f show ?thesis by simp
qed

section \<open>Properties of paths\<close>

lemma path_join2_suffix: "\<exists>c. path_join2 p b = c @ b"
  by (auto simp: path_join2_def)

lemma path_join2_empty_iff: "path_join2 p b = [] \<longleftrightarrow> p = [] \<and> b = []"
  by (auto simp: path_join2_def)

lemma path_join2_same_prefix:
  assumes "x \<noteq> []" "hd x \<noteq> 47" "y \<noteq> []" "hd y \<noteq> 47"
  shows "path_join2 p (pid @ x) = path_join2 p (pid @ y) \<longleftrightarrow> x = y"
  using assms by (cases pid) (auto simp: path_join2_def)

lemma str_nat_1: "str_nat (Suc 0) = [49]"
  by (simp add: str_nat.simps)

lemma str_nat_3: "str_nat 3 = [51]"
  by (simp add: str_nat.simps)

lemma img_filename_0: "img_filename pid 0 = pid @ lit ''_image_1.jpg''"
  by (simp add: img_filename_def lit_def str_nat.simps)

lemma img_filename_2: "img_filename pid 2 = pid @ lit ''_image_3.jpg''"
  by (simp add: img_filename_def lit_def str_nat.simps)

lemma img_filename_nonempty: "img_filename pid idx \<noteq> []"
  by (simp add: img_filename_def lit_def)

lemma image_path_nonempty: "os_path_join folder [img_filename pid idx] \<noteq> []"
  by (simp add: os_path_join_def path_join2_empty_iff img_filename_nonempty)

lemma image_paths_differ:
  "os_path_join folder [img_filename pid 0] \<noteq> os_path_join folder [img_filename pid 2]"
  by (simp add: os_path_join_def img_filename_0 img_filename_2 path_join2_same_prefix lit_def)

lemma image_path_not_json:
  "os_path_join folder [img_filename pid idx] \<noteq> os_path_join folder [pid @ lit ''.json'']"
  by (simp add: os_path_join_def img_filename_def path_join2_same_prefix lit_def)


lemma img_filename_1: "img_filename pid (Suc 0) = pid @ lit ''_image_2.jpg''"
  by (simp add: img_filename_def lit_def str_nat.simps)

lemma img_filename_2': "img_filename pid (Suc (Suc 0)) = pid @ lit ''_image_3.jpg''"
  by (simp add: img_filename_def lit_def str_nat.simps)

lemma image_paths_differ_12:
  "os_path_join folder [pid @ lit ''_image_1.jpg''] \<noteq> os_path_join folder [pid @ lit ''_image_2.jpg'']"
  by (simp add: os_path_join_def path_join2_same_prefix lit_def)

lemma image_paths_differ_13:
  "os_path_join folder [pid @ lit ''_image_1.jpg''] \<noteq> os_path_join folder [pid @ lit ''_image_3.jpg'']"
  by (simp add: os_path_join_def path_join2_same_prefix lit_def)

lemma image_paths_differ_23:
  "os_path_join folder [pid @ lit ''_image_2.jpg''] \<noteq> os_path_join folder [pid @ lit ''_image_3.jpg'']"
  by (simp add: os_path_join_def path_join2_same_prefix lit_def)

lemma image_name_not_json:
  "os_path_join folder [pid @ lit ''_image_1.jpg''] \<noteq> os_path_join folder [pid @ lit ''.json'']"
  "os_path_join folder [pid @ lit ''_image_2.jpg''] \<noteq> os_path_join folder [pid @ lit ''.json'']"
  "os_path_join folder [pid @ lit ''_image_3.jpg''] \<noteq> os_path_join folder [pid @ lit ''.json'']"
  by (simp_all add: os_path_join_def path_join2_same_prefix lit_def)

lemma image_name_nonempty: "os_path_join folder [pid @ lit ''_image_1.jpg''] \<noteq> []"
  "os_path_join folder [pid @ lit ''_image_3.jpg''] \<noteq> []"
  by (simp_all add: os_path_join_def path_join2_empty_iff lit_def)

section \<open>Properties of extraction\<close>

lemma logged_fields [simp]:
  "db (logged c st) = db st" "files (logged c st) = files st"
  "sessions (logged c st) = sessions st" "os_log (logged c st) = os_log st @ [c]"
  by (simp_all add: logged_def)

lemma accepted_from_not_refused:
  "accepted_from w log c \<Longrightarrow> os_log st = log @ later \<Longrightarrow> \<not> refused w c st"
  by (simp add: accepted_from_def refused_def)

lemma accepted_from_append: "accepted_from w log c \<Longrightarrow> accepted_from w (log @ later) c"
  by (simp add: accepted_from_def)

lemma save_image_log:
  "\<exists>later. os_log (snd (save_image w url folder filename st)) = os_log st @ later"
  by (simp add: save_image_def Let_def split: download.splits)

lemma save_image_db: "db (snd (save_image w url folder filename st)) = db st"
  by (simp add: save_image_def Let_def split: download.splits)

lemma save_image_sessions: "sessions (snd (save_image w url folder filename st)) = sessions st"
  by (simp add: save_image_def Let_def split: download.splits)

lemma save_image_files:
  "p \<noteq> os_path_join folder [filename] \<Longrightarrow>
   files (snd (save_image w url folder filename st)) p = files st p"
  by (simp add: save_image_def Let_def split: download.splits)

text \<open>What the image loop leaves alone.\<close>

lemma save_images_keeps:
  "db (snd (save_images w folder pid idx tags imgs st)) = db st \<and>
   sessions (snd (save_images w folder pid idx tags imgs st)) = sessions st \<and>
   ((\<forall>i. p \<noteq> os_path_join folder [img_filename pid i]) \<longrightarrow>
      files (snd (save_images w folder pid idx tags imgs st)) p = files st p)"
proof (induction tags arbitrary: idx imgs st)
  case Nil
  then show ?case by simp
next
  case (Cons src tags)
  show ?case
  proof (cases src)
    case None
    then show ?thesis using Cons by simp
  next
    case (Some img_url)
    show ?thesis
    proof (cases "img_url = []")
      case True
      with Some Cons show ?thesis by simp
    next
      case False
      show ?thesis
      proof (cases "urljoin w (base_url w) img_url")
        case None
        with Some False show ?thesis by simp
      next
        case (Some url)
        obtain res st' where r: "save_image w url folder (img_filename pid idx) st = (res, st')"
          by (cases "save_image w url folder (img_filename pid idx) st")
        have k: "db st' = db st" "sessions st' = sessions st"
          "(\<forall>i. p \<noteq> os_path_join folder [img_filename pid i]) \<longrightarrow> files st' p = files st p"
          using save_image_db [of w url folder "img_filename pid idx" st]
            save_image_sessions [of w url folder "img_filename pid idx" st]
            save_image_files [of p folder "img_filename pid idx" w url st] r
          by auto
        show ?thesis
        proof (cases res)
          case (Inl e)
          with \<open>src = Some img_url\<close> False Some r k show ?thesis by simp
        next
          case (Inr saved)
          with \<open>src = Some img_url\<close> False Some r k Cons show ?thesis
            by (cases saved) simp_all
        qed
      qed
    qed
  qed
qed

lemma save_images_log:
  "\<exists>later. os_log (snd (save_images w folder pid idx tags imgs st)) = os_log st @ later"
proof (induction tags arbitrary: idx imgs st)
  case Nil
  then show ?case by simp
next
  case (Cons src tags)
  show ?case
  proof (cases src)
    case None
    then show ?thesis using Cons by simp
  next
    case (Some img_url)
    show ?thesis
    proof (cases "img_url = []")
      case True
      with Some Cons show ?thesis by simp
    next
      case False
      show ?thesis
      proof (cases "urljoin w (base_url w) img_url")
        case None
        with Some False show ?thesis by simp
      next
        case (Some url)
        obtain res st' where r: "save_image w url folder (img_filename pid idx) st = (res, st')"
          by (cases "save_image w url folder (img_filename pid idx) st")
        from save_image_log [of w url folder "img_filename pid idx" st] r
        obtain l1 where l1: "os_log st' = os_log st @ l1" by auto
        have step: "\<exists>later. os_log (snd (save_images w folder pid (idx + 1) tags im st')) = os_log st @ later" for im
          using Cons [of "idx + 1" im st'] l1 by auto
        show ?thesis
        proof (cases res)
          case (Inl e)
          with \<open>src = Some img_url\<close> False Some r l1 show ?thesis by simp
        next
          case (Inr saved)
          with \<open>src = Some img_url\<close> False Some r step show ?thesis
            by (cases saved) simp_all
        qed
      qed
    qed
  qed
qed

lemma save_images_db_eq:
  "save_images w folder pid idx tags imgs st = (res, st') \<Longrightarrow> db st' = db st"
  using save_images_keeps [of w folder pid idx tags imgs st] by simp

lemma save_images_sessions_eq:
  "save_images w folder pid idx tags imgs st = (res, st') \<Longrightarrow> sessions st' = sessions st"
  using save_images_keeps [of w folder pid idx tags imgs st] by simp

lemma save_images_json_eq:
  "save_images w folder pid idx tags imgs st = (res, st') \<Longrightarrow>
   files st' (os_path_join folder [pid @ lit ''.json'']) = files st (os_path_join folder [pid @ lit ''.json''])"
  using save_images_keeps [of w folder pid idx tags imgs st "os_path_join folder [pid @ lit ''.json'']"]
    image_path_not_json [of folder pid]
  by (simp add: eq_commute [of "os_path_join folder [pid @ lit ''.json'']"])

text \<open>The five ways \<open>extract_product_metadata\<close> ends.\<close>

lemma extract_cases:
  fixes w link main sub nested pid st
  defines "folder \<equiv> product_folder w main sub nested pid"
      and "path \<equiv> json_path w main sub nested pid"
      and "res \<equiv> extract_product_metadata w link main sub nested pid st"
  obtains (fetch) e where "get_soup w link = Inl e" "res = (Raised e, st)"
  | (mkdir) page where "get_soup w link = Inr page" "refused w (Makedirs folder) st"
      "res = (Raised OSError, logged (Makedirs folder) st)"
  | (images) page e st1 where "get_soup w link = Inr page" "\<not> refused w (Makedirs folder) st"
      "save_images w folder pid 0 (gallery_images page) [] (logged (Makedirs folder) st) = (Inl e, st1)"
      "res = (Raised e, st1)"
  | (document) page imgs st1 where "get_soup w link = Inr page" "\<not> refused w (Makedirs folder) st"
      "save_images w folder pid 0 (gallery_images page) [] (logged (Makedirs folder) st) = (Inr imgs, st1)"
      "refused w (OpenWrite path) st1"
      "res = (Raised OSError, logged (OpenWrite path) st1)"
  | (ok) page imgs st1 where "get_soup w link = Inr page" "\<not> refused w (Makedirs folder) st"
      "save_images w folder pid 0 (gallery_images page) [] (logged (Makedirs folder) st) = (Inr imgs, st1)"
      "\<not> refused w (OpenWrite path) st1"
      "res = (Ok, (logged (OpenWrite path) st1)
                \<lparr>files := (files st1)(path \<mapsto> JsonFile (page_metadata w page main sub nested pid imgs)),
                  db := insert_product
                          (product_values (page_metadata w page main sub nested pid imgs) path) (db st)\<rparr>)"
proof (cases "get_soup w link")
  case (Inl e)
  then have "res = (Raised e, st)" by (simp add: res_def extract_product_metadata_def)
  with Inl show ?thesis by (rule fetch)
next
  case (Inr page)
  show ?thesis
  proof (cases "refused w (Makedirs folder) st")
    case True
    then have "res = (Raised OSError, logged (Makedirs folder) st)"
      by (simp add: res_def extract_product_metadata_def Inr folder_def)
    with Inr True show ?thesis by (rule mkdir)
  next
    case False
    obtain r st1 where sv:
      "save_images w folder pid 0 (gallery_images page) [] (logged (Makedirs folder) st) = (r, st1)"
      by (cases "save_images w folder pid 0 (gallery_images page) [] (logged (Makedirs folder) st)")
    have d: "db st1 = db st" using save_images_db_eq [OF sv] by simp
    show ?thesis
    proof (cases r)
      case (Inl e)
      with False sv have "res = (Raised e, st1)"
        by (simp add: res_def extract_product_metadata_def Inr folder_def)
      with Inr False sv Inl show ?thesis by (intro images) simp_all
    next
      case imgs: (Inr imgs)
      show ?thesis
      proof (cases "refused w (OpenWrite path) st1")
        case True
        with False sv imgs have "res = (Raised OSError, logged (OpenWrite path) st1)"
          by (simp add: res_def extract_product_metadata_def Inr folder_def path_def Let_def)
        with Inr False sv imgs True show ?thesis by (intro document) simp_all
      next
        case no: False
        with False sv imgs d
        have "res = (Ok, (logged (OpenWrite path) st1)
                \<lparr>files := (files st1)(path \<mapsto> JsonFile (page_metadata w page main sub nested pid imgs)),
                  db := insert_product
                          (product_values (page_metadata w page main sub nested pid imgs) path) (db st)\<rparr>)"
          by (simp add: res_def extract_product_metadata_def Inr folder_def path_def Let_def)
        with Inr False sv imgs no show ?thesis by (intro ok) simp_all
      qed
    qed
  qed
qed

lemma product_key_values:
  "product_key (product_values (page_metadata w page main sub nested pid imgs) path) =
   (main, sub, nested, pid)"
  by (simp add: product_key_def product_values_def page_metadata_def)

lemma insert_product_present:
  "product_key r \<in> set (map product_key (products d)) \<Longrightarrow> insert_product r d = d"
  by (simp add: insert_product_def)

lemma insert_product_absent:
  "product_key r \<notin> set (map product_key (products d)) \<Longrightarrow>
   products (insert_product r d) = products d @ [r]"
  by (simp add: insert_product_def)

lemma insert_product_has_key:
  "product_key r \<in> set (map product_key (products (insert_product r d)))"
  by (simp add: insert_product_def)

lemma insert_product_categories: "categories (insert_product r d) = categories d"
  by (simp add: insert_product_def)

lemma get_soup_Some: "pages w url = Some page \<Longrightarrow> get_soup w (Some url) = Inr page"
  by (simp add: get_soup_def)

text \<open>A call that ends normally has written the document and made the insert.\<close>

lemma extract_Ok:
  assumes "fst (extract_product_metadata w link main sub nested pid st) = Ok"
  shows "\<exists>page imgs. get_soup w link = Inr page \<and>
           db (snd (extract_product_metadata w link main sub nested pid st)) =
             insert_product (product_values (page_metadata w page main sub nested pid imgs)
                              (json_path w main sub nested pid)) (db st) \<and>
           files (snd (extract_product_metadata w link main sub nested pid st))
             (json_path w main sub nested pid) =
             Some (JsonFile (page_metadata w page main sub nested pid imgs))"
  using assms by (cases rule: extract_cases [of w link main sub nested pid st]) auto

text \<open>A call that raises has not touched the database nor the document.\<close>

lemma extract_Raised:
  assumes "fst (extract_product_metadata w link main sub nested pid st) = Raised e"
  shows "db (snd (extract_product_metadata w link main sub nested pid st)) = db st \<and>
         files (snd (extract_product_metadata w link main sub nested pid st))
           (json_path w main sub nested pid) = files st (json_path w main sub nested pid)"
proof (cases rule: extract_cases [of w link main sub nested pid st])
  case (fetch e)
  then show ?thesis by simp
next
  case (mkdir page)
  then show ?thesis by simp
next
  case (images page e st1)
  from save_images_db_eq [OF images(3)] save_images_json_eq [OF images(3)] images(4)
  show ?thesis by (simp add: json_path_def)
next
  case (document page imgs st1)
  from save_images_db_eq [OF document(3)] save_images_json_eq [OF document(3)] document(5)
  show ?thesis by (simp add: json_path_def)
next
  case (ok page imgs st1)
  with assms show ?thesis by simp
qed

lemma extract_categories:
  "categories (db (snd (extract_product_metadata w link main sub nested pid st))) = categories (db st)"
proof (cases rule: extract_cases [of w link main sub nested pid st])
  case (images page e st1)
  from save_images_db_eq [OF images(3)] images(4) show ?thesis by simp
next
  case (document page imgs st1)
  from save_images_db_eq [OF document(3)] document(5) show ?thesis by simp
qed (simp_all add: insert_product_categories)

lemma extract_sessions:
  "sessions (snd (extract_product_metadata w link main sub nested pid st)) = sessions st"
proof (cases rule: extract_cases [of w link main sub nested pid st])
  case (images page e st1)
  from save_images_sessions_eq [OF images(3)] images(4) show ?thesis by simp
next
  case (document page imgs st1)
  from save_images_sessions_eq [OF document(3)] document(5) show ?thesis by simp
next
  case (ok page imgs st1)
  from save_images_sessions_eq [OF ok(3)] ok(5) show ?thesis by simp
qed simp_all

lemma extract_products:
  assumes "r \<in> set (products (db (snd (extract_product_metadata w link main sub nested pid st))))"
  shows "r \<in> set (products (db st)) \<or>
         (fst (extract_product_metadata w link main sub nested pid st) = Ok \<and>
          product_key r = (main, sub, nested, pid))"
proof (cases "fst (extract_product_metadata w link main sub nested pid st)")
  case Ok
  from extract_Ok [OF Ok] obtain page imgs where
    d: "db (snd (extract_product_metadata w link main sub nested pid st)) =
         insert_product (product_values (page_metadata w page main sub nested pid imgs)
                          (json_path w main sub nested pid)) (db st)"
    by blast
  let ?row = "product_values (page_metadata w page main sub nested pid imgs) (json_path w main sub nested pid)"
  from assms have "r \<in> set (products (insert_product ?row (db st)))" by (simp only: d)
  then have "r \<in> set (products (db st)) \<or> r = ?row"
    by (auto simp: insert_product_def split: if_splits)
  then show ?thesis using Ok product_key_values [of w page main sub nested pid imgs] by auto
next
  case (Raised e)
  from extract_Raised [OF Raised] assms show ?thesis by simp
qed

text \<open>When nothing is refused and every \<open>src\<close> can be joined, the image loop returns.\<close>

lemma save_images_accepted:
  assumes mk: "accepted_from w log (Makedirs folder)"
  shows "(\<exists>later. os_log st = log @ later) \<Longrightarrow>
         (\<forall>i < length tags. accepted_from w log (OpenWrite (os_path_join folder [img_filename pid (idx + i)]))) \<Longrightarrow>
         (\<forall>s. Some s \<in> set tags \<longrightarrow> urljoin w (base_url w) s \<noteq> None) \<Longrightarrow>
         \<exists>imgs' st'. save_images w folder pid idx tags imgs st = (Inr imgs', st') \<and>
                     (\<exists>later. os_log st' = log @ later)"
proof (induction tags arbitrary: idx imgs st)
  case Nil
  then show ?case by simp
next
  case (Cons src tags)
  have rest: "\<forall>i < length tags. accepted_from w log (OpenWrite (os_path_join folder [img_filename pid ((idx + 1) + i)]))"
  proof (intro allI impI)
    fix i assume "i < length tags"
    then have "Suc i < length (src # tags)" by simp
    with Cons.prems(2) have "accepted_from w log (OpenWrite (os_path_join folder [img_filename pid (idx + Suc i)]))"
      by blast
    then show "accepted_from w log (OpenWrite (os_path_join folder [img_filename pid ((idx + 1) + i)]))" by simp
  qed
  have uj: "\<forall>s. Some s \<in> set tags \<longrightarrow> urljoin w (base_url w) s \<noteq> None"
    using Cons.prems(3) by simp
  note IH = Cons.IH [OF _ rest uj]
  have here: "accepted_from w log (OpenWrite (os_path_join folder [img_filename pid idx]))"
    using Cons.prems(2) by force
  from Cons.prems(1) obtain m where m: "os_log st = log @ m" by blast
  show ?case
  proof (cases src)
    case None
    then show ?thesis using IH [OF Cons.prems(1)] by simp
  next
    case (Some img_url)
    show ?thesis
    proof (cases "img_url = []")
      case True
      with Some IH [OF Cons.prems(1)] show ?thesis by simp
    next
      case False
      from Cons.prems(3) Some obtain url where url: "urljoin w (base_url w) img_url = Some url"
        by auto
      have nr: "\<not> refused w (Makedirs folder) st"
        by (rule accepted_from_not_refused [OF mk m])
      have nr2: "\<not> refused w (OpenWrite (os_path_join folder [img_filename pid idx])) (logged (Makedirs folder) st)"
        by (rule accepted_from_not_refused [OF here, of _ "m @ [Makedirs folder]"]) (simp add: m)
      obtain res st' where r: "save_image w url folder (img_filename pid idx) st = (res, st')"
        by (cases "save_image w url folder (img_filename pid idx) st")
      have "\<exists>saved. res = Inr saved"
        using r nr nr2 by (auto simp: save_image_def Let_def split: download.splits)
      then obtain saved where saved: "res = Inr saved" by blast
      from save_image_log [of w url folder "img_filename pid idx" st] r m
      have ext: "\<exists>later. os_log st' = log @ later" by auto
      from Some False url r saved IH [OF ext] show ?thesis by (cases saved) simp_all
    qed
  qed
qed

lemma extract_accepted:
  assumes page: "pages w url = Some page"
      and mk: "accepted_from w (os_log st) (Makedirs (product_folder w main sub nested pid))"
      and im: "\<forall>i < length (gallery_images page).
                 accepted_from w (os_log st @ [Makedirs (product_folder w main sub nested pid)])
                   (OpenWrite (os_path_join (product_folder w main sub nested pid) [img_filename pid i]))"
      and uj: "\<forall>s. Some s \<in> set (gallery_images page) \<longrightarrow> urljoin w (base_url w) s \<noteq> None"
      and doc: "accepted_from w (os_log st @ [Makedirs (product_folder w main sub nested pid)])
                  (OpenWrite (json_path w main sub nested pid))"
  shows "\<exists>imgs st1.
           save_images w (product_folder w main sub nested pid) pid 0 (gallery_images page) []
             (logged (Makedirs (product_folder w main sub nested pid)) st) = (Inr imgs, st1) \<and>
           extract_product_metadata w (Some url) main sub nested pid st =
             (Ok, (logged (OpenWrite (json_path w main sub nested pid)) st1)
                \<lparr>files := (files st1)(json_path w main sub nested pid \<mapsto>
                            JsonFile (page_metadata w page main sub nested pid imgs)),
                  db := insert_product
                          (product_values (page_metadata w page main sub nested pid imgs)
                             (json_path w main sub nested pid)) (db st)\<rparr>)"
proof -
  let ?folder = "product_folder w main sub nested pid"
  let ?path = "json_path w main sub nested pid"
  let ?log = "os_log st @ [Makedirs ?folder]"
  let ?res = "extract_product_metadata w (Some url) main sub nested pid st"
  have soup: "get_soup w (Some url) = Inr page" by (rule get_soup_Some [OF page])
  have nr: "\<not> refused w (Makedirs ?folder) st"
    by (rule accepted_from_not_refused [OF mk, of _ "[]"]) simp
  have mk': "accepted_from w ?log (Makedirs ?folder)"
    by (rule accepted_from_append [OF mk])
  have im': "\<forall>i < length (gallery_images page).
      accepted_from w ?log (OpenWrite (os_path_join ?folder [img_filename pid (0 + i)]))"
    using im by simp
  have start: "\<exists>later. os_log (logged (Makedirs ?folder) st) = ?log @ later" by simp
  from save_images_accepted [OF mk' start im' uj, of "[]"]
  obtain imgs st1 later where sv:
    "save_images w ?folder pid 0 (gallery_images page) [] (logged (Makedirs ?folder) st) = (Inr imgs, st1)"
    and ext: "os_log st1 = ?log @ later"
    by blast
  have nd: "\<not> refused w (OpenWrite ?path) st1"
    by (rule accepted_from_not_refused [OF doc ext])
  have "?res = (Ok, (logged (OpenWrite ?path) st1)
                \<lparr>files := (files st1)(?path \<mapsto> JsonFile (page_metadata w page main sub nested pid imgs)),
                  db := insert_product
                          (product_values (page_metadata w page main sub nested pid imgs) ?path) (db st)\<rparr>)"
  proof (cases rule: extract_cases [of w "Some url" main sub nested pid st])
    case (fetch e)
    with soup show ?thesis by simp
  next
    case (mkdir page')
    with nr show ?thesis by simp
  next
    case (images page' e st1')
    with soup sv show ?thesis by simp
  next
    case (document page' imgs' st1')
    with soup sv nd show ?thesis by simp
  next
    case (ok page' imgs' st1')
    with soup sv show ?thesis by simp
  qed
  with sv show ?thesis by blast
qed


lemma shop_fields:
  "tables shop = ascii" "base_url shop = lit ''x''" "products_per_subcategory shop = 2"
  "urljoin shop b r = Some (b @ r)"
  by (simp_all add: shop_def)

lemma shop_accepts: "accepted_from shop log c"
  by (simp add: accepted_from_def shop_def)

lemma strict_fields:
  "tables strict_shop = ascii" "base_url strict_shop = lit ''x''"
  "urljoin strict_shop b r = Some (b @ r)" "pages strict_shop = pages shop"
  "downloads strict_shop = downloads shop" "os_refuses strict_shop = needs_directory"
  by (simp_all add: strict_shop_def shop_def)

lemma dir_exists_append: "dir_exists log d \<Longrightarrow> dir_exists (log @ later) d"
  by (auto simp: dir_exists_def made_dirs_def list_ex_iff)

lemma dir_exists_made: "dir_exists (log @ [Makedirs d]) d"
  by (simp add: dir_exists_def made_dirs_def list_ex_iff)

lemma strict_accepts:
  "accepted_from strict_shop log (Makedirs d)"
  "dir_exists log (parent p) \<Longrightarrow> accepted_from strict_shop log (OpenWrite p)"
  by (simp_all add: accepted_from_def strict_fields needs_directory_def dir_exists_append)

lemma shop_pages:
  "pages shop (lit ''x'') = Some nav_page"
  "pages shop (lit ''x/A1'') = None"
  "pages shop (lit ''x/A2'') = Some gallery_page"
  "pages shop (lit ''x/B1'') = Some blank_page"
  by (simp_all add: shop_def lit_def)

lemma shop_downloads:
  "downloads shop (lit ''x'' @ lit ''/1'') = Complete [1]"
  "downloads shop (lit ''x'' @ lit ''/2'') = Failed"
  "downloads shop (lit ''x'' @ lit ''/3'') = Complete [3]"
  by (simp_all add: shop_def lit_def)

lemma shop_browser:
  "browser shop (lit ''x/casual'') = casual_session"
  "browser shop (lit ''x/formal'') = empty_session"
  by (simp_all add: shop_def lit_def)

lemma strip_examples:
  "strip ascii (lit '' Men '') = lit ''Men''"
  "strip ascii (lit '' Shirt '') = lit ''Shirt''"
  "strip ascii (lit ''Men'') = lit ''Men''"
  "strip ascii (lit ''Shirts'') = lit ''Shirts''"
  "strip ascii (lit ''Casual'') = lit ''Casual''"
  "strip ascii (lit ''Formal'') = lit ''Formal''"
  "strip ascii (lit ''no'') = lit ''no''"
  "strip ascii (lit '' Yes '') = lit ''Yes''"
  "strip ascii (lit ''M'') = lit ''M''"
  "strip ascii (lit ''S'') = lit ''S''"
  "strip ascii (lit ''N'') = lit ''N''"
  by (simp_all add: strip_def ascii_def lit_def)

lemma lower_examples:
  "lower ascii (lit ''Yes'') = lit ''yes''"
  "lower ascii (lit ''no'') = lit ''no''"
  by (simp_all add: ascii_def ascii_lower_def lit_def)

lemma sanitize_examples:
  "sanitize_filename ascii (lit ''Men'') = lit ''Men''"
  "sanitize_filename ascii (lit ''Shirts'') = lit ''Shirts''"
  "sanitize_filename ascii (lit ''Casual'') = lit ''Casual''"
  "sanitize_filename ascii (lit ''M'') = lit ''M''"
  "sanitize_filename ascii (lit ''S'') = lit ''S''"
  "sanitize_filename ascii (lit ''N'') = lit ''N''"
  by (simp_all add: ascii_def in_class_def word_char_def lit_def)

lemma folder_example:
  "product_folder shop (lit ''Men'') (lit ''Shirts'') (lit ''Casual'') (lit ''A2'') = lit ''assets/Men/Shirts/Casual/A2''"
  "product_folder shop (lit ''Men'') (lit ''Shirts'') (lit ''Casual'') (lit ''B1'') = lit ''assets/Men/Shirts/Casual/B1''"
  by (simp_all add: product_folder_def shop_fields sanitize_examples) (simp_all add: os_path_join_def path_join2_def lit_def)

lemma json_path_example:
  "json_path shop (lit ''Men'') (lit ''Shirts'') (lit ''Casual'') (lit ''A2'') = lit ''assets/Men/Shirts/Casual/A2/A2.json''"
  "json_path shop (lit ''Men'') (lit ''Shirts'') (lit ''Casual'') (lit ''B1'') = lit ''assets/Men/Shirts/Casual/B1/B1.json''"
  by (simp_all add: json_path_def folder_example os_path_join_def path_join2_def) (simp_all add: lit_def)

lemma strict_paths:
  "product_folder strict_shop (lit ''Men'') (lit ''Shirts'') (lit ''Casual'') (lit ''A2'') = lit ''assets/Men/Shirts/Casual/A2''"
  "product_folder strict_shop (lit ''Men'') (lit ''Shirts'') (lit ''Casual'') (lit ''B1'') = lit ''assets/Men/Shirts/Casual/B1''"
  "product_folder strict_shop (lit ''Men'') (lit ''Shirts'') (lit ''Casual'') (lit ''P'') = lit ''assets/Men/Shirts/Casual/P''"
  "json_path strict_shop (lit ''Men'') (lit ''Shirts'') (lit ''Casual'') (lit ''A2'') = lit ''assets/Men/Shirts/Casual/A2/A2.json''"
  "json_path strict_shop (lit ''Men'') (lit ''Shirts'') (lit ''Casual'') (lit ''B1'') = lit ''assets/Men/Shirts/Casual/B1/B1.json''"
  "json_path strict_shop (lit ''Men'') (lit ''Shirts'') (lit ''Casual'') (lit ''P'') = lit ''assets/Men/Shirts/Casual/P/P.json''"
  by (simp_all add: json_path_def product_folder_def strict_fields sanitize_examples)
     (simp_all add: os_path_join_def path_join2_def lit_def)

lemma strict_parents:
  "parent (lit ''assets/Men/Shirts/Casual/B1/B1.json'') = lit ''assets/Men/Shirts/Casual/B1''"
  "parent (lit ''assets/Men/Shirts/Casual/A2/A2.json'') = lit ''assets/Men/Shirts/Casual/A2''"
  "parent (lit ''assets/Men/Shirts/Casual/P/P.json'') = lit ''assets/Men/Shirts/Casual/P''"
  "parent (lit ''assets/Men/Shirts/Casual/A2/A2_image_1.jpg'') = lit ''assets/Men/Shirts/Casual/A2''"
  "parent (lit ''assets/Men/Shirts/Casual/A2/A2_image_2.jpg'') = lit ''assets/Men/Shirts/Casual/A2''"
  "parent (lit ''assets/Men/Shirts/Casual/A2/A2_image_3.jpg'') = lit ''assets/Men/Shirts/Casual/A2''"
  by (simp_all add: parent_def lit_def)


lemma save_three_images:
  assumes ne: "s1 \<noteq> []" "s2 \<noteq> []" "s3 \<noteq> []"
      and uj: "urljoin w (base_url w) s1 = Some u1" "urljoin w (base_url w) s2 = Some u2"
              "urljoin w (base_url w) s3 = Some u3"
      and d1: "downloads w u1 = Complete b1"
      and d2: "\<forall>b. downloads w u2 \<noteq> Complete b"
      and d3: "downloads w u3 = Complete b3"
      and mk: "accepted_from w (os_log st) (Makedirs folder)"
      and op: "accepted_from w (os_log st) (OpenWrite (os_path_join folder [pid @ lit ''_image_1.jpg'']))"
              "accepted_from w (os_log st) (OpenWrite (os_path_join folder [pid @ lit ''_image_2.jpg'']))"
              "accepted_from w (os_log st) (OpenWrite (os_path_join folder [pid @ lit ''_image_3.jpg'']))"
  shows "\<exists>st'. save_images w folder pid 0 [Some s1, Some s2, Some s3] [] st =
           (Inr [os_path_join folder [pid @ lit ''_image_1.jpg''],
                 os_path_join folder [pid @ lit ''_image_3.jpg'']], st') \<and>
         files st' (os_path_join folder [pid @ lit ''_image_1.jpg'']) = Some (ImageFile b1) \<and>
         files st' (os_path_join folder [pid @ lit ''_image_3.jpg'']) = Some (ImageFile b3) \<and>
         files st' (os_path_join folder [pid @ lit ''_image_2.jpg'']) =
           (case downloads w u2 of
              Interrupted part \<Rightarrow> Some (ImageFile part)
            | _ \<Rightarrow> files st (os_path_join folder [pid @ lit ''_image_2.jpg'']))"
proof -
  have nr: "\<And>later. \<not> os_refuses w (os_log st @ later) (Makedirs folder)"
    "\<And>later. \<not> os_refuses w (os_log st @ later) (OpenWrite (os_path_join folder [pid @ lit ''_image_1.jpg'']))"
    "\<And>later. \<not> os_refuses w (os_log st @ later) (OpenWrite (os_path_join folder [pid @ lit ''_image_2.jpg'']))"
    "\<And>later. \<not> os_refuses w (os_log st @ later) (OpenWrite (os_path_join folder [pid @ lit ''_image_3.jpg'']))"
    using mk op by (simp_all add: accepted_from_def)
  have nr0: "\<not> os_refuses w (os_log st) (Makedirs folder)"
    using nr(1) [of "[]"] by simp
  note names = img_filename_0 img_filename_1 img_filename_2'
  note diff = image_paths_differ_12 [of folder pid] image_paths_differ_13 [of folder pid]
    image_paths_differ_23 [of folder pid]
  show ?thesis
  proof (cases "downloads w u2")
    case Failed
    then show ?thesis
      using ne diff
      by (simp add: save_image_def uj d1 d3 nr nr0 names image_name_nonempty Let_def refused_def logged_def)
  next
    case (Interrupted part)
    then show ?thesis
      using ne diff
      by (simp add: save_image_def uj d1 d3 nr nr0 names image_name_nonempty Let_def refused_def logged_def)
  next
    case (Complete b)
    with d2 show ?thesis by simp
  qed
qed


lemma gallery_images_example:
  "gallery_images gallery_page = [Some (lit ''/1''), Some (lit ''/2''), Some (lit ''/3'')]"
  by (simp add: gallery_page_def blank_page_def)

lemma lit_nonempty: "lit ''/1'' \<noteq> []" "lit ''/2'' \<noteq> []" "lit ''/3'' \<noteq> []"
  by (simp_all add: lit_def)

lemma image_path_examples:
  "os_path_join (lit ''assets/Men/Shirts/Casual/A2'') [lit ''A2'' @ lit ''_image_1.jpg''] = lit ''assets/Men/Shirts/Casual/A2/A2_image_1.jpg''"
  "os_path_join (lit ''assets/Men/Shirts/Casual/A2'') [lit ''A2'' @ lit ''_image_2.jpg''] = lit ''assets/Men/Shirts/Casual/A2/A2_image_2.jpg''"
  "os_path_join (lit ''assets/Men/Shirts/Casual/A2'') [lit ''A2'' @ lit ''_image_3.jpg''] = lit ''assets/Men/Shirts/Casual/A2/A2_image_3.jpg''"
  by (simp_all add: os_path_join_def path_join2_def lit_def)


text \<open>
  Claim C2. Persisting two records with the same key (main, sub, nested, product id),
  both calls ending normally: the second \<open>INSERT OR IGNORE\<close> leaves the
  \<open>products\<close> table as the first left it, and the first itself leaves a row that
  was already there untouched (the first write wins); the document at the JSON path, a
  function of the key alone, is that of the first record after the first call and that
  of the second record after the second (the last write wins).
\<close>

theorem persist_twice_first_row_last_document:
  assumes p1: "pages w url1 = Some page1" and p2: "pages w url2 = Some page2"
      and ok1: "fst (extract_product_metadata w (Some url1) main sub nested pid st) = Ok"
      and ok2: "fst (extract_product_metadata w (Some url2) main sub nested pid
                  (snd (extract_product_metadata w (Some url1) main sub nested pid st))) = Ok"
  shows "\<exists>imgs1 imgs2.
         let r1 = extract_product_metadata w (Some url1) main sub nested pid st;
             r2 = extract_product_metadata w (Some url2) main sub nested pid (snd r1);
             path = json_path w main sub nested pid;
             md1 = page_metadata w page1 main sub nested pid imgs1;
             md2 = page_metadata w page2 main sub nested pid imgs2
         in products (db (snd r2)) = products (db (snd r1)) \<and>
            products (db (snd r1)) =
              (if (main, sub, nested, pid) \<in> product_key ` set (products (db st))
               then products (db st)
               else products (db st) @ [product_values md1 path]) \<and>
            files (snd r1) path = Some (JsonFile md1) \<and>
            files (snd r2) path = Some (JsonFile md2)"
proof -
  let ?path = "json_path w main sub nested pid"
  let ?r1 = "extract_product_metadata w (Some url1) main sub nested pid st"
  let ?r2 = "extract_product_metadata w (Some url2) main sub nested pid (snd ?r1)"
  from extract_Ok [OF ok1] get_soup_Some [OF p1] obtain imgs1 where
    d1: "db (snd ?r1) = insert_product (product_values (page_metadata w page1 main sub nested pid imgs1) ?path) (db st)"
    and f1: "files (snd ?r1) ?path = Some (JsonFile (page_metadata w page1 main sub nested pid imgs1))"
    by auto
  from extract_Ok [OF ok2] get_soup_Some [OF p2] obtain imgs2 where
    d2: "db (snd ?r2) = insert_product (product_values (page_metadata w page2 main sub nested pid imgs2) ?path) (db (snd ?r1))"
    and f2: "files (snd ?r2) ?path = Some (JsonFile (page_metadata w page2 main sub nested pid imgs2))"
    by auto
  let ?md1 = "page_metadata w page1 main sub nested pid imgs1"
  let ?md2 = "page_metadata w page2 main sub nested pid imgs2"
  have k1: "product_key (product_values ?md1 ?path) = (main, sub, nested, pid)"
    by (rule product_key_values)
  have k2: "product_key (product_values ?md2 ?path) = (main, sub, nested, pid)"
    by (rule product_key_values)
  have "product_key (product_values ?md2 ?path) \<in> set (map product_key (products (db (snd ?r1))))"
    unfolding d1 k2 using insert_product_has_key [of "product_values ?md1 ?path" "db st"] k1 by simp
  then have ignored: "products (db (snd ?r2)) = products (db (snd ?r1))"
    unfolding d2 by (simp add: insert_product_present)
  have first: "products (db (snd ?r1)) =
      (if (main, sub, nested, pid) \<in> product_key ` set (products (db st))
       then products (db st) else products (db st) @ [product_values ?md1 ?path])"
    unfolding d1 using k1 by (simp add: insert_product_def)
  have "products (db (snd ?r2)) = products (db (snd ?r1)) \<and>
        products (db (snd ?r1)) =
          (if (main, sub, nested, pid) \<in> product_key ` set (products (db st))
           then products (db st) else products (db st) @ [product_values ?md1 ?path]) \<and>
        files (snd ?r1) ?path = Some (JsonFile ?md1) \<and>
        files (snd ?r2) ?path = Some (JsonFile ?md2)"
    using ignored first f1 f2 by (intro conjI)
  then show ?thesis unfolding Let_def by (intro exI)
qed

lemma shop_extract_Ok:
  assumes "pages shop url = Some page"
  shows "fst (extract_product_metadata shop (Some url) main sub nested pid st) = Ok"
proof -
  have im: "\<forall>i < length (gallery_images page).
      accepted_from shop (os_log st @ [Makedirs (product_folder shop main sub nested pid)])
        (OpenWrite (os_path_join (product_folder shop main sub nested pid) [img_filename pid i]))"
    by (simp add: shop_accepts)
  have uj: "\<forall>s. Some s \<in> set (gallery_images page) \<longrightarrow> urljoin shop (base_url shop) s \<noteq> None"
    by (simp add: shop_fields)
  from extract_accepted [OF assms shop_accepts im uj shop_accepts]
  show ?thesis by auto
qed

lemma shop_extract_products:
  assumes "pages shop url = Some page" and "products (db st) = []"
  shows "map p_product_id (products (db (snd (extract_product_metadata shop (Some url) main sub nested pid st)))) = [pid]"
proof -
  have im: "\<forall>i < length (gallery_images page).
      accepted_from shop (os_log st @ [Makedirs (product_folder shop main sub nested pid)])
        (OpenWrite (os_path_join (product_folder shop main sub nested pid) [img_filename pid i]))"
    by (simp add: shop_accepts)
  have uj: "\<forall>s. Some s \<in> set (gallery_images page) \<longrightarrow> urljoin shop (base_url shop) s \<noteq> None"
    by (simp add: shop_fields)
  from extract_accepted [OF assms(1) shop_accepts im uj shop_accepts]
  obtain imgs where "db (snd (extract_product_metadata shop (Some url) main sub nested pid st)) =
      insert_product (product_values (page_metadata shop page main sub nested pid imgs)
                        (json_path shop main sub nested pid)) (db st)"
    by auto
  then show ?thesis
    using assms(2) by (simp add: insert_product_def product_values_def page_metadata_def)
qed

theorem persist_twice_first_row_last_document_witness:
  "pages shop (lit ''x/B1'') = Some blank_page \<and> pages shop (lit ''x/A2'') = Some gallery_page \<and>
   fst (extract_product_metadata shop (Some (lit ''x/B1'')) (lit ''Men'') (lit ''Shirts'') (lit ''Casual'') (lit ''P'') state0) = Ok \<and>
   fst (extract_product_metadata shop (Some (lit ''x/A2'')) (lit ''Men'') (lit ''Shirts'') (lit ''Casual'') (lit ''P'')
      (snd (extract_product_metadata shop (Some (lit ''x/B1'')) (lit ''Men'') (lit ''Shirts'') (lit ''Casual'') (lit ''P'') state0))) = Ok \<and>
   map p_title (products (db (snd (extract_product_metadata shop (Some (lit ''x/B1'')) (lit ''Men'') (lit ''Shirts'') (lit ''Casual'') (lit ''P'') state0))))
     = [Some (lit ''No Title Found'')] \<and>
   map p_title (products (db (snd (extract_product_metadata shop (Some (lit ''x/A2'')) (lit ''Men'') (lit ''Shirts'') (lit ''Casual'') (lit ''P'')
      (snd (extract_product_metadata shop (Some (lit ''x/B1'')) (lit ''Men'') (lit ''Shirts'') (lit ''Casual'') (lit ''P'') state0))))))
     = [Some (lit ''No Title Found'')] \<and>
   map_option (\<lambda>c. case c of JsonFile md \<Rightarrow> title md | ImageFile b \<Rightarrow> [])
     (files (snd (extract_product_metadata shop (Some (lit ''x/B1'')) (lit ''Men'') (lit ''Shirts'') (lit ''Casual'') (lit ''P'') state0))
        (json_path shop (lit ''Men'') (lit ''Shirts'') (lit ''Casual'') (lit ''P'')))
     = Some (lit ''No Title Found'') \<and>
   map_option (\<lambda>c. case c of JsonFile md \<Rightarrow> title md | ImageFile b \<Rightarrow> [])
     (files (snd (extract_product_metadata shop (Some (lit ''x/A2'')) (lit ''Men'') (lit ''Shirts'') (lit ''Casual'') (lit ''P'')
      (snd (extract_product_metadata shop (Some (lit ''x/B1'')) (lit ''Men'') (lit ''Shirts'') (lit ''Casual'') (lit ''P'') state0))))
        (json_path shop (lit ''Men'') (lit ''Shirts'') (lit ''Casual'') (lit ''P'')))
     = Some (lit ''Shirt'')"
proof -
  let ?r1 = "extract_product_metadata shop (Some (lit ''x/B1'')) (lit ''Men'') (lit ''Shirts'') (lit ''Casual'') (lit ''P'') state0"
  let ?r2 = "extract_product_metadata shop (Some (lit ''x/A2'')) (lit ''Men'') (lit ''Shirts'') (lit ''Casual'') (lit ''P'') (snd ?r1)"
  let ?path = "json_path shop (lit ''Men'') (lit ''Shirts'') (lit ''Casual'') (lit ''P'')"
  have t1: "title (page_metadata shop blank_page m s n p i) = lit ''No Title Found''" for m s n p i
    by (simp add: page_metadata_def blank_page_def)
  have t2: "title (page_metadata shop gallery_page m s n p i) = lit ''Shirt''" for m s n p i
    by (simp add: page_metadata_def gallery_page_def blank_page_def shop_fields strip_examples)
  have new: "(lit ''Men'', lit ''Shirts'', lit ''Casual'', lit ''P'') \<notin> product_key ` set (products (db state0))"
    by (simp add: state0_def)
  have ok1: "fst ?r1 = Ok" by (rule shop_extract_Ok [OF shop_pages(4)])
  have ok2: "fst ?r2 = Ok" by (rule shop_extract_Ok [OF shop_pages(3)])
  from persist_twice_first_row_last_document [OF shop_pages(4) shop_pages(3) ok1 ok2]
  obtain imgs1 imgs2 where r:
    "products (db (snd ?r2)) = products (db (snd ?r1))"
    "products (db (snd ?r1)) = products (db state0) @
       [product_values (page_metadata shop blank_page (lit ''Men'') (lit ''Shirts'') (lit ''Casual'') (lit ''P'') imgs1) ?path]"
    "files (snd ?r1) ?path = Some (JsonFile (page_metadata shop blank_page (lit ''Men'') (lit ''Shirts'') (lit ''Casual'') (lit ''P'') imgs1))"
    "files (snd ?r2) ?path = Some (JsonFile (page_metadata shop gallery_page (lit ''Men'') (lit ''Shirts'') (lit ''Casual'') (lit ''P'') imgs2))"
    unfolding Let_def using new by auto
  have a: "map p_title (products (db (snd ?r1))) = [Some (lit ''No Title Found'')]"
    unfolding r(2) by (simp add: state0_def product_values_def t1)
  have b: "map p_title (products (db (snd ?r2))) = [Some (lit ''No Title Found'')]"
    unfolding r(1) by (rule a)
  have c: "map_option (\<lambda>c. case c of JsonFile md \<Rightarrow> title md | ImageFile b \<Rightarrow> []) (files (snd ?r1) ?path) =
      Some (lit ''No Title Found'')"
    unfolding r(3) by (simp add: t1)
  have d: "map_option (\<lambda>c. case c of JsonFile md \<Rightarrow> title md | ImageFile b \<Rightarrow> []) (files (snd ?r2) ?path) =
      Some (lit ''Shirt'')"
    unfolding r(4) by (simp add: t2)
  from shop_pages(4) shop_pages(3) ok1 ok2 a b c d show ?thesis by (intro conjI)
qed

section \<open>Properties of the enumeration\<close>

lemma process_cards_preserves:
  assumes card: "\<And>c s. P s \<Longrightarrow> P (process_card w main sub nested c s)"
      and "P s"
  shows "P (process_cards w main sub nested cs s)"
  using assms(2)
proof (induction cs arbitrary: s)
  case Nil
  then show ?case by simp
next
  case (Cons c cs)
  then show ?case by (simp add: card)
qed

lemma crawl_loop_preserves:
  assumes card: "\<And>c s. P s \<Longrightarrow> P (process_card w main sub nested c s)"
      and scroll: "\<And>s n. P s \<Longrightarrow> P (s\<lparr>scrolls := n\<rparr>)"
      and height: "\<And>s h. P s \<Longrightarrow> P (s\<lparr>last_height := h\<rparr>)"
      and "P s"
      and "crawl_loop w main sub nested ses fuel s = Some s'"
  shows "P s'"
  using assms(4,5)
proof (induction fuel arbitrary: s)
  case 0
  then show ?case by (simp split: if_splits)
next
  case (Suc fuel)
  show ?case
  proof (cases "crawled_count s < products_per_subcategory w")
    case False
    with Suc.prems show ?thesis by simp
  next
    case True
    obtain cards h where page: "after_scroll ses (scrolls s) = (cards, h)"
      by (cases "after_scroll ses (scrolls s)")
    let ?s1 = "process_cards w main sub nested cards (s\<lparr>scrolls := scrolls s + 1\<rparr>)"
    have P1: "P ?s1"
    proof (rule process_cards_preserves [where P = P and w = w and main = main and sub = sub and nested = nested])
      show "P (process_card w main sub nested c t)" if "P t" for c t
        using that by (rule card)
      show "P (s\<lparr>scrolls := scrolls s + 1\<rparr>)"
        by (rule scroll [OF Suc.prems(1)])
    qed
    show ?thesis
    proof (cases "h = last_height ?s1")
      case True
      with Suc.prems(2) \<open>crawled_count s < products_per_subcategory w\<close> page have "s' = ?s1"
        by (simp add: Let_def)
      with P1 show ?thesis by simp
    next
      case False
      with Suc.prems(2) \<open>crawled_count s < products_per_subcategory w\<close> page
      have "crawl_loop w main sub nested ses fuel (?s1\<lparr>last_height := h\<rparr>) = Some s'"
        by (simp add: Let_def)
      with Suc.IH [OF height [OF P1]] show ?thesis by simp
    qed
  qed
qed

lemma process_card_counted: "counted s \<Longrightarrow> counted (process_card w main sub nested c s)"
  by (auto simp: counted_def process_card_def split: card.splits option.splits link_lookup.splits prod.splits)

lemma crawl_loop_counted:
  "counted s \<Longrightarrow> crawl_loop w main sub nested ses fuel s = Some s' \<Longrightarrow> counted s'"
proof (rule crawl_loop_preserves [where P = counted and w = w and main = main and sub = sub and nested = nested])
  show "counted (process_card w main sub nested c t)" if "counted t" for c t
    using that by (rule process_card_counted)
  show "counted (t\<lparr>scrolls := n\<rparr>)" if "counted t" for t n
    using that by (simp add: counted_def)
  show "counted (t\<lparr>last_height := h\<rparr>)" if "counted t" for t h
    using that by (simp add: counted_def)
qed

lemma crawl_products_counted:
  assumes "crawl_products w fuel url main sub nested st = Some s"
  shows "counted s"
proof -
  have "counted \<lparr> crawled_count = 0, products_seen = {}, last_height = initial_height (browser w url),
      scrolls = 0, calls = [], written = st\<lparr>sessions := sessions st @ [url]\<rparr> \<rparr>"
    by (simp add: counted_def)
  then show ?thesis
    using assms unfolding crawl_products_def by (rule crawl_loop_counted)
qed

text \<open>The cap.\<close>

lemma process_card_count_le:
  "crawled_count (process_card w main sub nested c s) \<le> crawled_count s + 1"
  by (simp add: process_card_def split: card.splits option.splits link_lookup.splits prod.splits)

lemma process_cards_capped:
  "crawled_count s \<le> products_per_subcategory w \<Longrightarrow>
   crawled_count (process_cards w main sub nested cs s) \<le> products_per_subcategory w"
proof (induction cs arbitrary: s)
  case Nil
  then show ?case by simp
next
  case (Cons c cs)
  show ?case
  proof (cases "crawled_count s \<ge> products_per_subcategory w")
    case True
    with Cons.prems show ?thesis by simp
  next
    case False
    then have "crawled_count (process_card w main sub nested c s) \<le> products_per_subcategory w"
      using process_card_count_le [of w main sub nested c s] by linarith
    with False Cons.IH show ?thesis by simp
  qed
qed

lemma crawl_loop_capped:
  "crawled_count s \<le> products_per_subcategory w \<Longrightarrow>
   crawl_loop w main sub nested ses fuel s = Some s' \<Longrightarrow>
   crawled_count s' \<le> products_per_subcategory w"
proof (induction fuel arbitrary: s)
  case 0
  then show ?case by (simp split: if_splits)
next
  case (Suc fuel)
  show ?case
  proof (cases "crawled_count s < products_per_subcategory w")
    case False
    with Suc.prems show ?thesis by simp
  next
    case True
    obtain cards h where page: "after_scroll ses (scrolls s) = (cards, h)"
      by (cases "after_scroll ses (scrolls s)")
    let ?s1 = "process_cards w main sub nested cards (s\<lparr>scrolls := scrolls s + 1\<rparr>)"
    have c1: "crawled_count ?s1 \<le> products_per_subcategory w"
      using Suc.prems(1) by (intro process_cards_capped) simp
    show ?thesis
    proof (cases "h = last_height ?s1")
      case True
      with Suc.prems(2) \<open>crawled_count s < products_per_subcategory w\<close> page have "s' = ?s1"
        by (simp add: Let_def)
      with c1 show ?thesis by simp
    next
      case False
      with Suc.prems(2) \<open>crawled_count s < products_per_subcategory w\<close> page
      have "crawl_loop w main sub nested ses fuel (?s1\<lparr>last_height := h\<rparr>) = Some s'"
        by (simp add: Let_def)
      moreover have "crawled_count (?s1\<lparr>last_height := h\<rparr>) \<le> products_per_subcategory w"
        using c1 by simp
      ultimately show ?thesis using Suc.IH by blast
    qed
  qed
qed

lemma crawl_products_capped:
  assumes "0 \<le> products_per_subcategory w"
      and "crawl_products w fuel url main sub nested st = Some s"
  shows "crawled_count s \<le> products_per_subcategory w"
  using assms(2) unfolding crawl_products_def
  by (rule crawl_loop_capped [rotated]) (simp add: assms(1))

lemma crawl_loop_done:
  "\<not> crawled_count s < products_per_subcategory w \<Longrightarrow>
   crawl_loop w main sub nested ses fuel s = Some s"
  by (cases fuel) simp_all

lemma process_card_new:
  "pid \<noteq> [] \<Longrightarrow> pid \<notin> products_seen s \<Longrightarrow>
   process_card w main sub nested (Card (Some pid) (Href link)) s =
     s\<lparr>products_seen := insert pid (products_seen s),
       crawled_count := crawled_count s + 1,
       calls := calls s @ [(pid, link, fst (extract_product_metadata w link main sub nested pid (written s)))],
       written := snd (extract_product_metadata w link main sub nested pid (written s))\<rparr>"
  by (simp add: process_card_def split: prod.splits)

lemma process_card_seen:
  "pid \<in> products_seen s \<Longrightarrow> process_card w main sub nested (Card (Some pid) lk) s = s"
  by (simp add: process_card_def)

lemma process_card_rows_accounted:
  assumes "rows_accounted main sub nested st s"
  shows "rows_accounted main sub nested st (process_card w main sub nested c s)"
proof (cases c)
  case Stale
  with assms show ?thesis by (simp add: process_card_def)
next
  case (Card attr lk)
  show ?thesis
  proof (cases "\<exists>pid link. attr = Some pid \<and> pid \<noteq> [] \<and> pid \<notin> products_seen s \<and> lk = Href link")
    case False
    with Card have "process_card w main sub nested c s = s"
      by (auto simp: process_card_def split: option.splits link_lookup.splits)
    with assms show ?thesis by simp
  next
    case True
    then obtain pid link where c: "attr = Some pid" "pid \<noteq> []" "pid \<notin> products_seen s" "lk = Href link"
      by blast
    let ?res = "extract_product_metadata w link main sub nested pid (written s)"
    have step: "process_card w main sub nested c s =
        s\<lparr>products_seen := insert pid (products_seen s), crawled_count := crawled_count s + 1,
          calls := calls s @ [(pid, link, fst ?res)], written := snd ?res\<rparr>"
      unfolding Card c(1,4) by (rule process_card_new [OF c(2,3)])
    show ?thesis
      unfolding step rows_accounted_def
    proof
      fix r
      assume "r \<in> set (products (db (written (s\<lparr>products_seen := insert pid (products_seen s),
          crawled_count := crawled_count s + 1,
          calls := calls s @ [(pid, link, fst ?res)], written := snd ?res\<rparr>))))"
      then have "r \<in> set (products (db (snd ?res)))" by simp
      then consider "r \<in> set (products (db (written s)))"
        | "fst ?res = Ok" "product_key r = (main, sub, nested, pid)"
        using extract_products by blast
      then show "r \<in> set (products (db st)) \<or>
          (\<exists>pid' link'. (pid', link', Ok) \<in> set (calls (s\<lparr>products_seen := insert pid (products_seen s),
             crawled_count := crawled_count s + 1,
             calls := calls s @ [(pid, link, fst ?res)], written := snd ?res\<rparr>)) \<and>
             product_key r = (main, sub, nested, pid'))"
      proof cases
        case 1
        with assms show ?thesis by (auto simp: rows_accounted_def)
      next
        case 2
        then show ?thesis by auto
      qed
    qed
  qed
qed

lemma crawl_loop_rows_accounted:
  "rows_accounted main sub nested st s \<Longrightarrow>
   crawl_loop w main sub nested ses fuel s = Some s' \<Longrightarrow> rows_accounted main sub nested st s'"
proof (rule crawl_loop_preserves [where P = "rows_accounted main sub nested st" and w = w
      and main = main and sub = sub and nested = nested])
  show "rows_accounted main sub nested st (process_card w main sub nested c t)"
    if "rows_accounted main sub nested st t" for c t
    using that by (rule process_card_rows_accounted)
  show "rows_accounted main sub nested st (t\<lparr>scrolls := n\<rparr>)"
    if "rows_accounted main sub nested st t" for t n
    using that by (simp add: rows_accounted_def)
  show "rows_accounted main sub nested st (t\<lparr>last_height := h\<rparr>)"
    if "rows_accounted main sub nested st t" for t h
    using that by (simp add: rows_accounted_def)
qed

lemma crawl_products_rows_accounted:
  assumes "crawl_products w fuel url main sub nested st = Some s"
  shows "rows_accounted main sub nested st s"
proof -
  have "rows_accounted main sub nested st
     \<lparr> crawled_count = 0, products_seen = {}, last_height = initial_height (browser w url),
       scrolls = 0, calls = [], written = st\<lparr>sessions := sessions st @ [url]\<rparr> \<rparr>"
    by (simp add: rows_accounted_def)
  then show ?thesis
    using assms unfolding crawl_products_def by (rule crawl_loop_rows_accounted)
qed

lemma counted_card: "counted s \<Longrightarrow> crawled_count s = int (card (products_seen s))"
proof -
  assume c: "counted s"
  then have "card (set (map fst (calls s))) = length (map fst (calls s))"
    by (intro distinct_card) (simp add: counted_def)
  with c show ?thesis by (simp add: counted_def)
qed


text \<open>
  Claim C1. For a positive cap, the calls of \<open>extract_product_metadata\<close> that one
  \<open>crawl_products\<close> has made when it returns have pairwise different identities
  and are at most as many as the cap. In the shop, whose cap is 2 and whose Casual page
  shows A1, then A2, then A1 again, any run allowed at least two scroll actions returns
  after exactly two of them, having processed A1 and A2.
\<close>

theorem crawl_products_distinct_capped:
  "(0 < products_per_subcategory w \<and> crawl_products w fuel url main sub nested st = Some s \<longrightarrow>
      distinct (map fst (calls s)) \<and>
      int (length (calls s)) \<le> products_per_subcategory w) \<and>
   (2 \<le> fuel' \<longrightarrow>
      (\<exists>s'. crawl_products shop fuel' (lit ''x/casual'') (lit ''Men'') (lit ''Shirts'') (lit ''Casual'') st' = Some s' \<and>
            map (\<lambda>(pid, link, res). (pid, link)) (calls s') =
              [(lit ''A1'', Some (lit ''x/A1'')), (lit ''A2'', Some (lit ''x/A2''))] \<and>
            crawled_count s' = products_per_subcategory shop \<and>
            scrolls s' = 2))"
proof (intro conjI impI)
  assume a: "0 < products_per_subcategory w \<and> crawl_products w fuel url main sub nested st = Some s"
  then have c: "counted s" by (intro crawl_products_counted [of w fuel url main sub nested st]) simp
  from a have "crawled_count s \<le> products_per_subcategory w"
    by (intro crawl_products_capped [of w fuel url main sub nested st]) simp_all
  with c show "distinct (map fst (calls s))" "int (length (calls s)) \<le> products_per_subcategory w"
    by (simp_all add: counted_def)
next
  assume "2 \<le> fuel'"
  then obtain k where k: "fuel' = Suc (Suc k)"
    by (metis Suc_le_D numeral_2_eq_2 le_Suc_eq Suc_le_mono le0 not_less_eq_eq)
  have ne: "lit ''A1'' \<noteq> []" "lit ''A2'' \<noteq> []" "lit ''A2'' \<noteq> lit ''A1''"
    by (simp_all add: lit_def)
  have cap: "products_per_subcategory shop = 2" by (simp add: shop_def)
  have br: "browser shop (lit ''x/casual'') = casual_session" by (simp add: shop_def)
  have sc: "after_scroll casual_session 0 = ([card_A1], 200)"
    "after_scroll casual_session (Suc 0) = ([card_A1, card_A2], 300)"
    "initial_height casual_session = 100"
    by (simp_all add: casual_session_def)
  show "\<exists>s'. crawl_products shop fuel' (lit ''x/casual'') (lit ''Men'') (lit ''Shirts'') (lit ''Casual'') st' = Some s' \<and>
            map (\<lambda>(pid, link, res). (pid, link)) (calls s') =
              [(lit ''A1'', Some (lit ''x/A1'')), (lit ''A2'', Some (lit ''x/A2''))] \<and>
            crawled_count s' = products_per_subcategory shop \<and>
            scrolls s' = 2"
    unfolding k crawl_products_def br
    by (simp add: cap sc card_A1_def card_A2_def process_card_new process_card_seen ne crawl_loop_done)
qed

theorem crawl_products_distinct_capped_witness:
  "0 < products_per_subcategory shop \<and>
   (\<exists>s. crawl_products shop 2 (lit ''x/casual'') (lit ''Men'') (lit ''Shirts'') (lit ''Casual'') state0 = Some s \<and>
        map (\<lambda>(pid, link, res). (pid, link)) (calls s) =
          [(lit ''A1'', Some (lit ''x/A1'')), (lit ''A2'', Some (lit ''x/A2''))] \<and>
        scrolls s = 2 \<and>
        distinct (map fst (calls s)) \<and>
        int (length (calls s)) \<le> products_per_subcategory shop)"
proof -
  have cap: "0 < products_per_subcategory shop" by (simp add: shop_def)
  have "2 \<le> (2::nat) \<longrightarrow>
      (\<exists>s. crawl_products shop 2 (lit ''x/casual'') (lit ''Men'') (lit ''Shirts'') (lit ''Casual'') state0 = Some s \<and>
        map (\<lambda>(pid, link, res). (pid, link)) (calls s) =
          [(lit ''A1'', Some (lit ''x/A1'')), (lit ''A2'', Some (lit ''x/A2''))] \<and>
        crawled_count s = products_per_subcategory shop \<and>
        scrolls s = 2)"
    by (rule crawl_products_distinct_capped [THEN conjunct2])
  then obtain s where s:
    "crawl_products shop 2 (lit ''x/casual'') (lit ''Men'') (lit ''Shirts'') (lit ''Casual'') state0 = Some s"
    "map (\<lambda>(pid, link, res). (pid, link)) (calls s) =
       [(lit ''A1'', Some (lit ''x/A1'')), (lit ''A2'', Some (lit ''x/A2''))]"
    "scrolls s = 2"
    by auto
  have "0 < products_per_subcategory shop \<and>
      crawl_products shop 2 (lit ''x/casual'') (lit ''Men'') (lit ''Shirts'') (lit ''Casual'') state0 = Some s \<longrightarrow>
      distinct (map fst (calls s)) \<and> int (length (calls s)) \<le> products_per_subcategory shop"
    by (rule crawl_products_distinct_capped [THEN conjunct1])
  with cap s(1)
  have "distinct (map fst (calls s))" "int (length (calls s)) \<le> products_per_subcategory shop"
    by simp_all
  with cap s show ?thesis by (intro conjI exI [of _ s])
qed


lemma extract_A1:
  "extract_product_metadata shop (Some (lit ''x/A1'')) main sub nested pid st = (Raised RequestException, st)"
  by (simp add: extract_product_metadata_def get_soup_def shop_pages)

lemma casual_crawl:
  "crawl_products shop (Suc (Suc k)) (lit ''x/casual'') (lit ''Men'') (lit ''Shirts'') (lit ''Casual'') st =
   Some \<lparr> crawled_count = 2,
          products_seen = {lit ''A2'', lit ''A1''},
          last_height = 300,
          scrolls = 2,
          calls = [(lit ''A1'', Some (lit ''x/A1''), Raised RequestException),
                   (lit ''A2'', Some (lit ''x/A2''), Ok)],
          written = snd (extract_product_metadata shop (Some (lit ''x/A2'')) (lit ''Men'') (lit ''Shirts'')
                          (lit ''Casual'') (lit ''A2'') (st\<lparr>sessions := sessions st @ [lit ''x/casual'']\<rparr>)) \<rparr>"
proof -
  have ne: "lit ''A1'' \<noteq> []" "lit ''A2'' \<noteq> []" "lit ''A2'' \<noteq> lit ''A1''"
    by (simp_all add: lit_def)
  have sc: "after_scroll casual_session 0 = ([card_A1], 200)"
    "after_scroll casual_session (Suc 0) = ([card_A1, card_A2], 300)"
    "initial_height casual_session = 100"
    by (simp_all add: casual_session_def)
  have ok: "fst (extract_product_metadata shop (Some (lit ''x/A2'')) main sub nested pid t) = Ok"
    for main sub nested pid t
    by (rule shop_extract_Ok [OF shop_pages(3)])
  show ?thesis
    unfolding crawl_products_def shop_browser
    by (simp add: shop_fields sc card_A1_def card_A2_def process_card_new process_card_seen ne
        crawl_loop_done extract_A1 ok)
qed


section \<open>Properties of category discovery\<close>

lemma first_error_append:
  "first_error f (xs @ ys) = (case first_error f xs of Some e \<Rightarrow> Some e | None \<Rightarrow> first_error f ys)"
  by (induction xs) (simp_all split: option.splits)

lemma first_error_none: "(\<forall>x \<in> set xs. f x = None) \<Longrightarrow> first_error f xs = None"
  by (induction xs) simp_all

lemma dict_set_keys: "fst ` set (dict_set d k v) = insert k (fst ` set d)"
proof (induction d)
  case Nil
  then show ?case by simp
next
  case (Cons p d)
  obtain a b where p: "p = (a, b)" by (cases p)
  show ?case
  proof (cases "a = k")
    case True
    with p show ?thesis by simp
  next
    case False
    with p Cons show ?thesis by (simp add: insert_commute)
  qed
qed

lemma parse_links_first_error:
  "parse_links w ls acc =
     (case first_error (link_error w) ls of
        Some e \<Rightarrow> Inl e
      | None \<Rightarrow>
          Inr (acc @ map (\<lambda>l. (strip (tables w) (link_text l),
                                the (urljoin w (base_url w) (the (link_href l))))) ls))"
proof (induction ls arbitrary: acc)
  case Nil
  then show ?case by simp
next
  case (Cons l ls)
  show ?case
  proof (cases "link_href l")
    case None
    then show ?thesis by (simp add: link_error_def)
  next
    case (Some h)
    show ?thesis
    proof (cases "urljoin w (base_url w) h")
      case None
      with Some show ?thesis by (simp add: link_error_def)
    next
      case url: (Some url)
      with Some Cons.IH show ?thesis by (simp add: link_error_def split: option.splits)
    qed
  qed
qed

lemma parse_tabs_first_error:
  "case first_error (tab_error w) ts of
     Some e \<Rightarrow> parse_tabs w ts acc = Inl e
   | None \<Rightarrow> (\<exists>r. parse_tabs w ts acc = Inr r)"
proof (induction ts arbitrary: acc)
  case Nil
  then show ?case by simp
next
  case (Cons t ts)
  show ?case
  proof (cases "tab_title t")
    case None
    then show ?thesis by (simp add: tab_error_def)
  next
    case (Some name)
    show ?thesis
    proof (cases "first_error (link_error w) (tab_links t)")
      case bad: (Some e)
      with Some show ?thesis by (simp add: tab_error_def parse_links_first_error)
    next
      case None
      then have here: "tab_error w t = None" using Some by (simp add: tab_error_def)
      let ?ls = "map (\<lambda>l. (strip (tables w) (link_text l),
                           the (urljoin w (base_url w) (the (link_href l))))) (tab_links t)"
      have step: "parse_tabs w (t # ts) acc = parse_tabs w ts (dict_set acc (strip (tables w) name) ?ls)"
        using Some None by (simp add: parse_links_first_error)
      from Cons.IH [of "dict_set acc (strip (tables w) name) ?ls"]
      show ?thesis unfolding step by (simp add: here)
    qed
  qed
qed

lemma parse_supercats_first_error:
  "case first_error (supercat_error w) ms of
     Some e \<Rightarrow> parse_supercats w ms acc = Inl e
   | None \<Rightarrow>
       (\<exists>r. parse_supercats w ms acc = Inr r \<and>
            fst ` set r = fst ` set acc \<union> (\<lambda>m. strip (tables w) (the (supercat_link m))) ` set ms)"
proof (induction ms arbitrary: acc)
  case Nil
  then show ?case by simp
next
  case (Cons m ms)
  show ?case
  proof (cases "supercat_link m")
    case None
    then show ?thesis by (simp add: supercat_error_def)
  next
    case (Some name)
    show ?thesis
    proof (cases "first_error (tab_error w) (supercat_tabs m)")
      case bad: (Some e)
      with parse_tabs_first_error [of w "supercat_tabs m" "[]"] Some
      show ?thesis by (simp add: supercat_error_def)
    next
      case None
      then have here: "supercat_error w m = None" using Some by (simp add: supercat_error_def)
      from parse_tabs_first_error [of w "supercat_tabs m" "[]"] None
      obtain subs where subs: "parse_tabs w (supercat_tabs m) [] = Inr subs" by auto
      have step: "parse_supercats w (m # ms) acc =
          parse_supercats w ms (dict_set acc (strip (tables w) name) subs)"
        using Some subs by simp
      from Cons.IH [of "dict_set acc (strip (tables w) name) subs"]
      show ?thesis unfolding step
        by (auto simp: here dict_set_keys Some split: option.splits)
    qed
  qed
qed

text \<open>
  Claim C4, as amended. \<open>parse_categories\<close> does not skip a malformed node. When
  every entry has its title link, every tab its title and every leaf link an
  \<open>href\<close> that \<open>urljoin\<close> accepts, it returns a mapping, whose main categories
  are the stripped titles of the entries. Otherwise it raises and returns nothing, and
  the first defective node in reading order decides the exception:
  \<open>AttributeError\<close> for a missing title link or tab title, \<open>KeyError\<close> for a
  missing \<open>href\<close>, \<open>ValueError\<close> for an \<open>href\<close> that \<open>urljoin\<close> rejects.
\<close>

theorem parse_categories_raises_on_missing_node:
  "(case nav_error w page of
      Some e \<Rightarrow> parse_categories w page = Inl e
    | None \<Rightarrow>
        (\<exists>cats. parse_categories w page = Inr cats \<and>
                fst ` set cats =
                  (\<lambda>m. strip (tables w) (the (supercat_link m))) ` set (supercats page))) \<and>
   (supercats page = good @ m # rest \<and>
    (\<forall>g \<in> set good. supercat_error w g = None) \<and> supercat_error w m = Some e \<longrightarrow>
      parse_categories w page = Inl e) \<and>
   (supercat_link m = None \<longrightarrow> supercat_error w m = Some AttributeError) \<and>
   (tab_title t = None \<longrightarrow> tab_error w t = Some AttributeError) \<and>
   (link_href l = None \<longrightarrow> link_error w l = Some KeyError) \<and>
   (link_href l = Some h \<and> urljoin w (base_url w) h = None \<longrightarrow> link_error w l = Some ValueError)"
proof (intro conjI impI)
  show main: "case nav_error w page of
      Some e \<Rightarrow> parse_categories w page = Inl e
    | None \<Rightarrow>
        (\<exists>cats. parse_categories w page = Inr cats \<and>
                fst ` set cats =
                  (\<lambda>m. strip (tables w) (the (supercat_link m))) ` set (supercats page))"
    using parse_supercats_first_error [of w "supercats page" "[]"]
    by (simp add: parse_categories_def nav_error_def split: option.splits)
  show "parse_categories w page = Inl e"
    if a: "supercats page = good @ m # rest \<and>
       (\<forall>g \<in> set good. supercat_error w g = None) \<and> supercat_error w m = Some e"
  proof -
    from a have "first_error (supercat_error w) good = None" by (intro first_error_none) simp
    with a have "nav_error w page = Some e"
      by (simp add: nav_error_def first_error_append)
    with main show ?thesis by simp
  qed
  show "supercat_error w m = Some AttributeError" if "supercat_link m = None"
    using that by (simp add: supercat_error_def)
  show "tab_error w t = Some AttributeError" if "tab_title t = None"
    using that by (simp add: tab_error_def)
  show "link_error w l = Some KeyError" if "link_href l = None"
    using that by (simp add: link_error_def)
  show "link_error w l = Some ValueError" if "link_href l = Some h \<and> urljoin w (base_url w) h = None"
    using that by (simp add: link_error_def)
qed

lemma parse_nav_page:
  "parse_categories shop nav_page =
     Inr [(lit ''Men'', [(lit ''Shirts'', [(lit ''Casual'', lit ''x/casual''), (lit ''Formal'', lit ''x/formal'')])])]"
  by (simp add: parse_categories_def nav_page_def blank_page_def shop_fields strip_examples)
     (simp add: lit_def)

lemma nav_error_examples:
  "nav_error shop nav_page = None"
  "nav_error shop broken_nav_page = Some AttributeError"
  "nav_error shop broken_href_page = Some KeyError"
  by (simp_all add: nav_error_def supercat_error_def tab_error_def link_error_def nav_page_def
      broken_nav_page_def broken_href_page_def blank_page_def shop_fields)

theorem parse_categories_raises_on_missing_node_witness:
  "nav_error shop nav_page = None \<and>
   nav_error shop broken_nav_page = Some AttributeError \<and>
   nav_error shop broken_href_page = Some KeyError \<and>
   parse_categories shop nav_page =
     Inr [(lit ''Men'', [(lit ''Shirts'', [(lit ''Casual'', lit ''x/casual''), (lit ''Formal'', lit ''x/formal'')])])] \<and>
   parse_categories shop broken_nav_page = Inl AttributeError \<and>
   parse_categories shop broken_href_page = Inl KeyError"
proof -
  have a: "parse_categories shop broken_nav_page = Inl AttributeError"
    using parse_categories_raises_on_missing_node [of shop broken_nav_page]
    by (simp add: nav_error_examples)
  have b: "parse_categories shop broken_href_page = Inl KeyError"
    using parse_categories_raises_on_missing_node [of shop broken_href_page]
    by (simp add: nav_error_examples)
  from nav_error_examples parse_nav_page a b show ?thesis by (intro conjI)
qed

text \<open>
  Claim C4 as stated fails: the second entry of this menu has no title link, the first
  is the menu of the shop; the function raises instead of returning the mapping of the
  first.
\<close>

theorem parse_categories_does_not_skip:
  "supercat_link (supercats broken_nav_page ! 1) = None \<and>
   take 1 (supercats broken_nav_page) = supercats nav_page \<and>
   parse_categories shop broken_nav_page = Inl AttributeError \<and>
   parse_categories shop nav_page =
     Inr [(lit ''Men'', [(lit ''Shirts'', [(lit ''Casual'', lit ''x/casual''), (lit ''Formal'', lit ''x/formal'')])])]"
proof -
  have "supercat_link (supercats broken_nav_page ! 1) = None"
    by (simp add: broken_nav_page_def nav_page_def blank_page_def)
  moreover have "take 1 (supercats broken_nav_page) = supercats nav_page"
    by (simp add: broken_nav_page_def nav_page_def blank_page_def)
  moreover have "parse_categories shop broken_nav_page = Inl AttributeError"
    by (simp add: parse_categories_def broken_nav_page_def nav_page_def blank_page_def
        shop_fields strip_examples)
  ultimately show ?thesis using parse_nav_page by (intro conjI)
qed

section \<open>Properties of the run\<close>

lemma crawl_categories_declined:
  "\<not> affirmative w answer \<Longrightarrow> \<exists>out. crawl_categories w answer fuel st = Some (out, st)"
  by (simp add: crawl_categories_def split: sum.splits)

lemma not_affirmative_no: "\<not> affirmative shop (lit ''no'')"
  by (simp add: affirmative_def shop_fields strip_examples lower_examples) (simp add: lit_def)

lemma affirmative_yes: "affirmative shop (lit '' Yes '')"
  by (simp add: affirmative_def shop_fields strip_examples lower_examples)

lemma get_soup_shop: "get_soup shop (Some (base_url shop)) = Inr nav_page"
  by (simp add: get_soup_def shop_fields shop_pages)

text \<open>
  Claim C5, as amended. On an answer that is not affirmative \<open>crawl_categories\<close>
  returns with the state it was given: no session is opened, no row inserted, no file
  written, no call made to the file system. The process as a whole leaves the \<open>categories\<close> rows and the files as
  they were, and the \<open>products\<close> table empty, because the module has dropped and
  recreated it before the prompt.
\<close>

theorem declined_run_keeps_state_after_initialisation:
  assumes "\<not> affirmative w answer"
  shows "(\<exists>out. crawl_categories w answer fuel st = Some (out, st)) \<and>
         (\<exists>out. run_script w answer fuel f fs log =
            Some (out, \<lparr> db = \<lparr> categories = (case stored_categories f of
                                                None \<Rightarrow> [] | Some rows \<Rightarrow> rows),
                                products = [] \<rparr>,
                        files = fs, sessions = [], os_log = log \<rparr>))"
  using crawl_categories_declined [OF assms, of fuel st]
    crawl_categories_declined [OF assms, of fuel
      "\<lparr> db = module_init f, files = fs, sessions = [], os_log = log \<rparr>"]
  by (simp add: run_script_def module_init_def)

lemma declined_run_example:
  "run_script shop (lit ''no'') 0 old_db Map.empty [] =
     Some (Ok, \<lparr> db = \<lparr> categories = [], products = [] \<rparr>, files = Map.empty, sessions = [],
                 os_log = [] \<rparr>)"
  by (simp add: run_script_def crawl_categories_def get_soup_shop parse_nav_page not_affirmative_no
      module_init_def old_db_def)

theorem declined_run_keeps_state_after_initialisation_witness:
  "\<not> affirmative shop (lit ''no'') \<and>
   crawl_categories shop (lit ''no'') 0 state0 = Some (Ok, state0) \<and>
   run_script shop (lit ''no'') 0 old_db Map.empty [] =
     Some (Ok, \<lparr> db = \<lparr> categories = [], products = [] \<rparr>, files = Map.empty, sessions = [],
                 os_log = [] \<rparr>)"
proof -
  from declined_run_keeps_state_after_initialisation [OF not_affirmative_no, of 0 state0 old_db Map.empty "[]"]
  obtain out where "crawl_categories shop (lit ''no'') 0 state0 = Some (out, state0)" by blast
  moreover have "fst (the (crawl_categories shop (lit ''no'') 0 state0)) = Ok"
    by (simp add: crawl_categories_def get_soup_shop parse_nav_page not_affirmative_no)
  ultimately have "crawl_categories shop (lit ''no'') 0 state0 = Some (Ok, state0)" by simp
  with not_affirmative_no declined_run_example show ?thesis by (intro conjI)
qed

text \<open>
  Claim C5 as stated fails: the product row stored by an earlier run is gone after a
  run that the operator declined.
\<close>

theorem declined_run_drops_stored_products:
  "\<not> affirmative shop (lit ''no'') \<and>
   stored_products old_db = Some [old_row] \<and>
   run_script shop (lit ''no'') 0 old_db Map.empty [] =
     Some (Ok, \<lparr> db = \<lparr> categories = [], products = [] \<rparr>, files = Map.empty, sessions = [],
                 os_log = [] \<rparr>) \<and>
   stored_products (stored \<lparr> categories = [], products = [] \<rparr>) \<noteq> stored_products old_db"
proof -
  have "stored_products old_db = Some [old_row]" by (simp add: old_db_def)
  moreover have "stored_products (stored \<lparr> categories = [], products = [] \<rparr>) \<noteq> stored_products old_db"
    by (simp add: stored_def old_db_def)
  ultimately show ?thesis using not_affirmative_no declined_run_example by (intro conjI)
qed


section \<open>The categories table during a run\<close>

lemma process_card_categories:
  "categories (db (written (process_card w main sub nested c s))) = categories (db (written s))"
  by (simp add: process_card_def extract_categories
      split: card.splits option.splits link_lookup.splits prod.splits)
     (metis extract_categories snd_conv)

lemma crawl_loop_categories:
  "categories (db (written s)) = cs \<Longrightarrow>
   crawl_loop w main sub nested ses fuel s = Some s' \<Longrightarrow> categories (db (written s')) = cs"
proof (rule crawl_loop_preserves [where P = "\<lambda>s. categories (db (written s)) = cs" and w = w
      and main = main and sub = sub and nested = nested])
  show "categories (db (written (process_card w main sub nested c t))) = cs"
    if "categories (db (written t)) = cs" for c t
    using that by (simp add: process_card_categories)
  show "categories (db (written (t\<lparr>scrolls := n\<rparr>))) = cs"
    if "categories (db (written t)) = cs" for t n
    using that by simp
  show "categories (db (written (t\<lparr>last_height := h\<rparr>))) = cs"
    if "categories (db (written t)) = cs" for t h
    using that by simp
qed

lemma crawl_products_categories:
  assumes "crawl_products w fuel url main sub nested st = Some s"
  shows "categories (db (written s)) = categories (db st)"
  using assms unfolding crawl_products_def
  by (rule crawl_loop_categories [rotated]) simp

lemma insert_category_distinct:
  "distinct (map category_key (categories d)) \<Longrightarrow>
   distinct (map category_key (categories (insert_category r d)))"
  by (simp add: insert_category_def)

lemma insert_category_filter:
  "filter (\<lambda>x. category_key x = k) (categories (insert_category r d)) =
     (if category_key r = k \<and> k \<notin> category_key ` set (categories d)
      then [r] else filter (\<lambda>x. category_key x = k) (categories d))"
proof (cases "category_key r \<in> category_key ` set (categories d)")
  case True
  then show ?thesis by (auto simp: insert_category_def)
next
  case False
  have "filter (\<lambda>x. category_key x = k) (categories d) = []" if "k \<notin> category_key ` set (categories d)"
    using that by (auto simp: filter_empty_conv)
  with False show ?thesis by (auto simp: insert_category_def)
qed

lemma insert_category_prefix: "\<exists>new. categories (insert_category r d) = categories d @ new"
  by (simp add: insert_category_def)

lemma insert_category_products: "products (insert_category r d) = products d"
  by (simp add: insert_category_def)

lemma key_filter_nonempty:
  "k \<in> category_key ` set cs \<longleftrightarrow> filter (\<lambda>x. category_key x = k) cs \<noteq> []"
  by (auto simp: filter_empty_conv)

text \<open>
  After the loop over the leaves, the rows with a given key are those that were there
  before; when there was none, the row of the first leaf with that key.
\<close>

lemma crawl_leaves_filter:
  assumes "crawl_leaves w fuel ls st = Some st'"
  shows "filter (\<lambda>x. category_key x = k) (categories (db st')) =
     (if k \<in> category_key ` set (categories (db st))
      then filter (\<lambda>x. category_key x = k) (categories (db st))
      else (case find (\<lambda>(m, s, n, u). (m, s) = k) ls of
              None \<Rightarrow> []
            | Some (m, s, n, u) \<Rightarrow> [\<lparr>c_main_category = m, c_sub_category = s, c_url = Some u\<rparr>]))"
  using assms
proof (induction ls arbitrary: st)
  case Nil
  then show ?case by (auto simp: filter_empty_conv)
next
  case (Cons leaf ls)
  obtain m s n u where leaf: "leaf = (m, s, n, u)" by (cases leaf)
  let ?row = "\<lparr>c_main_category = m, c_sub_category = s, c_url = Some u\<rparr>"
  let ?st1 = "st\<lparr>db := insert_category ?row (db st)\<rparr>"
  from Cons.prems leaf obtain cs where cs: "crawl_products w fuel u m s n ?st1 = Some cs"
    and rest: "crawl_leaves w fuel ls (written cs) = Some st'"
    by (auto split: option.splits)
  have c1: "categories (db (written cs)) = categories (insert_category ?row (db st))"
    using crawl_products_categories [OF cs] by simp
  have key: "category_key ?row = (m, s)" by (simp add: category_key_def)
  note IH = Cons.IH [OF rest, unfolded c1]
  show ?case
  proof (cases "k \<in> category_key ` set (categories (db st))")
    case True
    then have "k \<in> category_key ` set (categories (insert_category ?row (db st)))"
      by (auto simp: insert_category_def)
    with IH True show ?thesis by (simp add: insert_category_filter)
  next
    case False
    show ?thesis
    proof (cases "(m, s) = k")
      case True
      with False key have f: "filter (\<lambda>x. category_key x = k) (categories (insert_category ?row (db st))) = [?row]"
        by (simp add: insert_category_filter)
      then have "k \<in> category_key ` set (categories (insert_category ?row (db st)))"
        by (simp add: key_filter_nonempty)
      with IH f False True leaf show ?thesis by simp
    next
      case ne: False
      with key have f: "filter (\<lambda>x. category_key x = k) (categories (insert_category ?row (db st))) =
          filter (\<lambda>x. category_key x = k) (categories (db st))"
        by (auto simp: insert_category_filter)
      with False have "k \<notin> category_key ` set (categories (insert_category ?row (db st)))"
        by (simp add: key_filter_nonempty)
      with IH False ne leaf show ?thesis by simp
    qed
  qed
qed

lemma crawl_leaves_prefix:
  assumes "crawl_leaves w fuel ls st = Some st'"
  shows "\<exists>new. categories (db st') = categories (db st) @ new"
  using assms
proof (induction ls arbitrary: st)
  case Nil
  then show ?case by simp
next
  case (Cons leaf ls)
  obtain m s n u where leaf: "leaf = (m, s, n, u)" by (cases leaf)
  let ?row = "\<lparr>c_main_category = m, c_sub_category = s, c_url = Some u\<rparr>"
  let ?st1 = "st\<lparr>db := insert_category ?row (db st)\<rparr>"
  from Cons.prems leaf obtain cs where cs: "crawl_products w fuel u m s n ?st1 = Some cs"
    and rest: "crawl_leaves w fuel ls (written cs) = Some st'"
    by (auto split: option.splits)
  have c1: "categories (db (written cs)) = categories (insert_category ?row (db st))"
    using crawl_products_categories [OF cs] by simp
  from Cons.IH [OF rest] obtain new where "categories (db st') = categories (insert_category ?row (db st)) @ new"
    unfolding c1 by blast
  moreover obtain new' where "categories (insert_category ?row (db st)) = categories (db st) @ new'"
    using insert_category_prefix by blast
  ultimately show ?case by simp
qed

lemma distinct_key_filter:
  assumes "distinct (map category_key cs)"
  shows "filter (\<lambda>x. category_key x = k) cs =
         (case find (\<lambda>x. category_key x = k) cs of None \<Rightarrow> [] | Some r \<Rightarrow> [r])"
  using assms
proof (induction cs)
  case Nil
  then show ?case by simp
next
  case (Cons c cs)
  show ?case
  proof (cases "category_key c = k")
    case True
    with Cons.prems have "k \<notin> category_key ` set cs" by auto
    then have "filter (\<lambda>x. category_key x = k) cs = []" by (auto simp: filter_empty_conv)
    with True show ?thesis by simp
  next
    case False
    with Cons show ?thesis by simp
  qed
qed

text \<open>
  Claim C6, as amended. After a confirmed run that returns, the \<open>categories\<close>
  table (whose keys were distinct before, as the \<open>UNIQUE\<close> constraint guarantees)
  has exactly one row for a pair (main, sub) under which the menu has a leaf. Its
  \<open>url\<close> is the one of the first insert: that of the row an earlier run had stored
  for the pair, or else the URL of the first leaf of the pair in the order of the
  loops. The later leaves are ignored.
\<close>

theorem category_row_keeps_first_url:
  assumes page: "pages w (base_url w) = Some page"
      and cats: "parse_categories w page = Inr cats"
      and yes: "affirmative w answer"
      and run: "crawl_categories w answer fuel st = Some (out, st')"
      and uniq: "distinct (map category_key (categories (db st)))"
      and leaf: "find (\<lambda>(m, s, n, u). (m, s) = (main, sub)) (leaf_list cats) = Some (main, sub, nested, url)"
  shows "\<exists>r. filter (\<lambda>x. category_key x = (main, sub)) (categories (db st')) = [r] \<and>
             c_main_category r = main \<and> c_sub_category r = sub \<and>
             c_url r = (case find (\<lambda>x. category_key x = (main, sub)) (categories (db st)) of
                          Some old \<Rightarrow> c_url old
                        | None \<Rightarrow> Some url)"
proof -
  from run have lv: "crawl_leaves w fuel (leaf_list cats) st = Some st'"
    by (auto simp: crawl_categories_def get_soup_Some [OF page] cats yes)
  note f = crawl_leaves_filter [OF lv, of "(main, sub)"]
  show ?thesis
  proof (cases "find (\<lambda>x. category_key x = (main, sub)) (categories (db st))")
    case None
    then have "filter (\<lambda>x. category_key x = (main, sub)) (categories (db st)) = []"
      using distinct_key_filter [OF uniq, of "(main, sub)"] by simp
    then have "(main, sub) \<notin> category_key ` set (categories (db st))"
      by (simp add: key_filter_nonempty)
    with f leaf None show ?thesis by simp
  next
    case (Some old)
    then have fo: "filter (\<lambda>x. category_key x = (main, sub)) (categories (db st)) = [old]"
      using distinct_key_filter [OF uniq, of "(main, sub)"] by simp
    then have "(main, sub) \<in> category_key ` set (categories (db st))"
      by (simp add: key_filter_nonempty)
    with f fo have "filter (\<lambda>x. category_key x = (main, sub)) (categories (db st')) = [old]" by simp
    moreover from fo have "old \<in> set (filter (\<lambda>x. category_key x = (main, sub)) (categories (db st)))" by simp
    then have "c_main_category old = main \<and> c_sub_category old = sub" by (simp add: category_key_def)
    ultimately show ?thesis using Some by simp
  qed
qed

lemma formal_crawl:
  "crawl_products shop (Suc k) (lit ''x/formal'') main sub nested st =
   Some \<lparr> crawled_count = 0, products_seen = {}, last_height = 100, scrolls = 1, calls = [],
          written = st\<lparr>sessions := sessions st @ [lit ''x/formal'']\<rparr> \<rparr>"
  unfolding crawl_products_def shop_browser
  by (simp add: shop_fields empty_session_def)

lemma leaf_list_shop:
  "leaf_list [(lit ''Men'', [(lit ''Shirts'', [(lit ''Casual'', lit ''x/casual''), (lit ''Formal'', lit ''x/formal'')])])] =
   [(lit ''Men'', lit ''Shirts'', lit ''Casual'', lit ''x/casual''),
    (lit ''Men'', lit ''Shirts'', lit ''Formal'', lit ''x/formal'')]"
  by (simp add: leaf_list_def)

lemma extract_A2_products:
  "products (db st) = [] \<Longrightarrow>
   map p_product_id (products (db (snd (extract_product_metadata shop (Some (lit ''x/A2'')) main sub nested pid st)))) = [pid]"
  by (rule shop_extract_products [OF shop_pages(3)])

lemma shop_run:
  "crawl_categories shop (lit '' Yes '') (Suc (Suc k)) st =
   Some (Ok,
     (snd (extract_product_metadata shop (Some (lit ''x/A2'')) (lit ''Men'') (lit ''Shirts'') (lit ''Casual'') (lit ''A2'')
        (st\<lparr>db := insert_category \<lparr>c_main_category = lit ''Men'', c_sub_category = lit ''Shirts'',
                                     c_url = Some (lit ''x/casual'')\<rparr> (db st),
            sessions := sessions st @ [lit ''x/casual'']\<rparr>)))
     \<lparr>db := insert_category \<lparr>c_main_category = lit ''Men'', c_sub_category = lit ''Shirts'',
                               c_url = Some (lit ''x/formal'')\<rparr>
         (db (snd (extract_product_metadata shop (Some (lit ''x/A2'')) (lit ''Men'') (lit ''Shirts'') (lit ''Casual'') (lit ''A2'')
        (st\<lparr>db := insert_category \<lparr>c_main_category = lit ''Men'', c_sub_category = lit ''Shirts'',
                                     c_url = Some (lit ''x/casual'')\<rparr> (db st),
            sessions := sessions st @ [lit ''x/casual'']\<rparr>)))),
      sessions := sessions st @ [lit ''x/casual'', lit ''x/formal'']\<rparr>)"
  by (simp add: crawl_categories_def get_soup_shop parse_nav_page affirmative_yes leaf_list_shop
      casual_crawl formal_crawl extract_sessions)

lemma shop_run_tables:
  "map_option (categories \<circ> db \<circ> snd) (crawl_categories shop (lit '' Yes '') 2 state0) =
     Some [\<lparr>c_main_category = lit ''Men'', c_sub_category = lit ''Shirts'', c_url = Some (lit ''x/casual'')\<rparr>]"
  "map_option (map p_product_id \<circ> products \<circ> db \<circ> snd) (crawl_categories shop (lit '' Yes '') 2 state0) =
     Some [lit ''A2'']"
  "map_option fst (crawl_categories shop (lit '' Yes '') 2 state0) = Some Ok"
proof -
  have run: "crawl_categories shop (lit '' Yes '') 2 state0 = crawl_categories shop (lit '' Yes '') (Suc (Suc 0)) state0"
    by (simp add: numeral_2_eq_2)
  show "map_option (categories \<circ> db \<circ> snd) (crawl_categories shop (lit '' Yes '') 2 state0) =
     Some [\<lparr>c_main_category = lit ''Men'', c_sub_category = lit ''Shirts'', c_url = Some (lit ''x/casual'')\<rparr>]"
    unfolding run shop_run
    by (simp add: extract_categories insert_category_def category_key_def state0_def)
  show "map_option (map p_product_id \<circ> products \<circ> db \<circ> snd) (crawl_categories shop (lit '' Yes '') 2 state0) =
     Some [lit ''A2'']"
    unfolding run shop_run
    by (simp add: insert_category_products extract_A2_products state0_def)
  show "map_option fst (crawl_categories shop (lit '' Yes '') 2 state0) = Some Ok"
    unfolding run shop_run by simp
qed

theorem category_row_keeps_first_url_witness:
  "pages shop (base_url shop) = Some nav_page \<and>
   affirmative shop (lit '' Yes '') \<and>
   distinct (map category_key (categories (db state0))) \<and>
   (\<exists>r. filter (\<lambda>x. category_key x = (lit ''Men'', lit ''Shirts''))
           (categories (db (snd (the (crawl_categories shop (lit '' Yes '') 2 state0))))) = [r] \<and>
        c_url r = Some (lit ''x/casual''))"
proof -
  have page: "pages shop (base_url shop) = Some nav_page" by (simp add: shop_fields shop_pages)
  have uniq: "distinct (map category_key (categories (db state0)))" by (simp add: state0_def)
  have none: "find (\<lambda>x. category_key x = (lit ''Men'', lit ''Shirts'')) (categories (db state0)) = None"
    by (simp add: state0_def)
  have leaf: "find (\<lambda>(m, s, n, u). (m, s) = (lit ''Men'', lit ''Shirts''))
      (leaf_list [(lit ''Men'', [(lit ''Shirts'', [(lit ''Casual'', lit ''x/casual''), (lit ''Formal'', lit ''x/formal'')])])]) =
      Some (lit ''Men'', lit ''Shirts'', lit ''Casual'', lit ''x/casual'')"
    by (simp add: leaf_list_shop)
  from shop_run_tables(3) obtain out st' where run:
    "crawl_categories shop (lit '' Yes '') 2 state0 = Some (out, st')" by auto
  from category_row_keeps_first_url [OF page parse_nav_page affirmative_yes run uniq leaf]
  obtain r where "filter (\<lambda>x. category_key x = (lit ''Men'', lit ''Shirts'')) (categories (db st')) = [r]"
    "c_url r = Some (lit ''x/casual'')"
    unfolding none by auto
  then have "\<exists>r. filter (\<lambda>x. category_key x = (lit ''Men'', lit ''Shirts''))
           (categories (db (snd (the (crawl_categories shop (lit '' Yes '') 2 state0))))) = [r] \<and>
        c_url r = Some (lit ''x/casual'')"
    unfolding run by simp
  with page affirmative_yes uniq show ?thesis by (intro conjI)
qed

text \<open>
  Claim C6 as stated fails: Casual and Formal share (Men, Shirts); the one row left by
  the run carries the URL of Casual, the first leaf, not that of Formal, the last.
\<close>

theorem category_row_is_not_last_url:
  "leaf_list [(lit ''Men'', [(lit ''Shirts'', [(lit ''Casual'', lit ''x/casual''), (lit ''Formal'', lit ''x/formal'')])])] =
     [(lit ''Men'', lit ''Shirts'', lit ''Casual'', lit ''x/casual''),
      (lit ''Men'', lit ''Shirts'', lit ''Formal'', lit ''x/formal'')] \<and>
   parse_categories shop nav_page =
     Inr [(lit ''Men'', [(lit ''Shirts'', [(lit ''Casual'', lit ''x/casual''), (lit ''Formal'', lit ''x/formal'')])])] \<and>
   map_option (map c_url \<circ> categories \<circ> db \<circ> snd) (crawl_categories shop (lit '' Yes '') 2 state0) =
     Some [Some (lit ''x/casual'')] \<and>
   lit ''x/casual'' \<noteq> lit ''x/formal''"
proof -
  have "map_option (map c_url \<circ> categories \<circ> db \<circ> snd) (crawl_categories shop (lit '' Yes '') 2 state0) =
     map_option (map c_url) (map_option (categories \<circ> db \<circ> snd) (crawl_categories shop (lit '' Yes '') 2 state0))"
    by (simp add: option.map_comp comp_def)
  then have "map_option (map c_url \<circ> categories \<circ> db \<circ> snd) (crawl_categories shop (lit '' Yes '') 2 state0) =
     Some [Some (lit ''x/casual'')]"
    unfolding shop_run_tables(1) by simp
  moreover have "lit ''x/casual'' \<noteq> lit ''x/formal''" by (simp add: lit_def)
  ultimately show ?thesis using leaf_list_shop parse_nav_page by (intro conjI)
qed

section \<open>Two runs on the same site\<close>

lemma agree_append:
  "agree w a b (xs @ ys) = (agree w a b xs \<and> agree w (a @ xs) (b @ xs) ys)"
  by (induction xs arbitrary: a b) simp_all

lemma history_free_agree: "history_free w \<Longrightarrow> agree w a b cs"
proof (induction cs arbitrary: a b)
  case Nil
  then show ?case by simp
next
  case (Cons c cs)
  from Cons.prems have "os_refuses w a c = os_refuses w b c"
    unfolding history_free_def by blast
  with Cons show ?case by simp
qed

text \<open>The calls a step makes are added to the log.\<close>

lemma extract_log:
  "\<exists>ext. os_log (snd (extract_product_metadata w link main sub nested pid st)) = os_log st @ ext"
proof (cases rule: extract_cases [of w link main sub nested pid st])
  case (fetch e)
  then show ?thesis by simp
next
  case (mkdir page)
  then show ?thesis by simp
next
  case (images page e st1)
  from save_images_log [of w "product_folder w main sub nested pid" pid 0 "gallery_images page" "[]"
      "logged (Makedirs (product_folder w main sub nested pid)) st"] images
  show ?thesis by auto
next
  case (document page imgs st1)
  from save_images_log [of w "product_folder w main sub nested pid" pid 0 "gallery_images page" "[]"
      "logged (Makedirs (product_folder w main sub nested pid)) st"] document
  show ?thesis by auto
next
  case (ok page imgs st1)
  from save_images_log [of w "product_folder w main sub nested pid" pid 0 "gallery_images page" "[]"
      "logged (Makedirs (product_folder w main sub nested pid)) st"] ok
  show ?thesis by auto
qed

lemma process_card_log:
  "\<exists>ext. os_log (written (process_card w main sub nested c s)) = os_log (written s) @ ext"
proof (cases "\<exists>pid link. c = Card (Some pid) (Href link) \<and> pid \<noteq> [] \<and> pid \<notin> products_seen s")
  case False
  then have "process_card w main sub nested c s = s"
    by (auto simp: process_card_def split: card.splits option.splits link_lookup.splits)
  then show ?thesis by simp
next
  case True
  then obtain pid link where c: "c = Card (Some pid) (Href link)" "pid \<noteq> []" "pid \<notin> products_seen s"
    by blast
  show ?thesis
    unfolding c(1) process_card_new [OF c(2,3)]
    using extract_log [of w link main sub nested pid "written s"] by simp
qed

lemma process_cards_log:
  "\<exists>ext. os_log (written (process_cards w main sub nested cs s)) = os_log (written s) @ ext"
proof (induction cs arbitrary: s)
  case Nil
  then show ?case by simp
next
  case (Cons c cs)
  show ?case
  proof (cases "crawled_count s \<ge> products_per_subcategory w")
    case True
    then show ?thesis by simp
  next
    case False
    from process_card_log [of w main sub nested c s] obtain e1 where
      e1: "os_log (written (process_card w main sub nested c s)) = os_log (written s) @ e1" by blast
    from Cons [of "process_card w main sub nested c s"] obtain e2 where
      "os_log (written (process_cards w main sub nested cs (process_card w main sub nested c s))) =
       os_log (written (process_card w main sub nested c s)) @ e2" by blast
    with e1 False show ?thesis by simp
  qed
qed

lemma crawl_loop_log:
  assumes "crawl_loop w main sub nested ses fuel s = Some s'"
  shows "\<exists>ext. os_log (written s') = os_log (written s) @ ext"
proof -
  let ?P = "\<lambda>t. \<exists>ext. os_log (written t) = os_log (written s) @ ext"
  show ?thesis
  proof (rule crawl_loop_preserves [where P = ?P and w = w and main = main and sub = sub
        and nested = nested and ses = ses and fuel = fuel and s = s and s' = s'])
    show "?P (process_card w main sub nested c t)" if "?P t" for c t
      using that process_card_log [of w main sub nested c t] by auto
    show "?P (t\<lparr>scrolls := n\<rparr>)" if "?P t" for t n using that by simp
    show "?P (t\<lparr>last_height := h\<rparr>)" if "?P t" for t h using that by simp
    show "?P s" by simp
    show "crawl_loop w main sub nested ses fuel s = Some s'" by (rule assms)
  qed
qed

lemma crawl_products_log:
  assumes "crawl_products w fuel url main sub nested st = Some s'"
  shows "\<exists>ext. os_log (written s') = os_log st @ ext"
  using crawl_loop_log [OF assms [unfolded crawl_products_def]] by simp

lemma crawl_leaves_log:
  "crawl_leaves w fuel ls st = Some st' \<Longrightarrow> \<exists>ext. os_log st' = os_log st @ ext"
proof (induction ls arbitrary: st)
  case Nil
  then show ?case by simp
next
  case (Cons leaf ls)
  obtain m s n u where leaf: "leaf = (m, s, n, u)" by (cases leaf)
  let ?row = "\<lparr>c_main_category = m, c_sub_category = s, c_url = Some u\<rparr>"
  from Cons.prems obtain s1 where
    s1: "crawl_products w fuel u m s n (st\<lparr>db := insert_category ?row (db st)\<rparr>) = Some s1"
    and rest: "crawl_leaves w fuel ls (written s1) = Some st'"
    by (auto simp: leaf split: option.splits)
  from crawl_products_log [OF s1] obtain e1 where "os_log (written s1) = os_log st @ e1" by auto
  moreover from Cons.IH [OF rest] obtain e2 where "os_log st' = os_log (written s1) @ e2" by blast
  ultimately show ?case by simp
qed

lemma crawl_categories_log:
  assumes "crawl_categories w answer fuel st = Some (out, st')"
  shows "\<exists>ext. os_log st' = os_log st @ ext"
proof (cases "\<exists>cats. crawl_leaves w fuel (leaf_list cats) st = Some st'")
  case True
  then show ?thesis using crawl_leaves_log by blast
next
  case False
  with assms have "st' = st"
    by (auto simp: crawl_categories_def split: sum.splits if_splits)
  then show ?thesis by simp
qed

text \<open>
  A step that gets the same answers from the file system makes the same calls and ends
  the same way.
\<close>

lemma save_image_agree:
  assumes "os_log (snd (save_image w url folder filename s)) = os_log s @ ext"
      and "agree w (os_log s) (os_log t) ext"
  shows "fst (save_image w url folder filename t) = fst (save_image w url folder filename s) \<and>
         os_log (snd (save_image w url folder filename t)) = os_log t @ ext"
  using assms
  by (auto simp: save_image_def refused_def logged_def Let_def split: download.splits if_splits)

lemma save_images_agree:
  assumes "os_log (snd (save_images w folder pid idx tags imgs s)) = os_log s @ ext"
      and "agree w (os_log s) (os_log t) ext"
  shows "fst (save_images w folder pid idx tags imgs t) = fst (save_images w folder pid idx tags imgs s) \<and>
         os_log (snd (save_images w folder pid idx tags imgs t)) = os_log t @ ext"
  using assms
proof (induction tags arbitrary: idx imgs s t ext)
  case Nil
  then show ?case by simp
next
  case (Cons src tags)
  show ?case
  proof (cases src)
    case None
    then show ?thesis using Cons.IH [OF _ Cons.prems(2)] Cons.prems(1) by simp
  next
    case (Some img_url)
    show ?thesis
    proof (cases "img_url = []")
      case True
      with Some show ?thesis using Cons.IH [OF _ Cons.prems(2)] Cons.prems(1) by simp
    next
      case False
      show ?thesis
      proof (cases "urljoin w (base_url w) img_url")
        case None
        with Some False Cons.prems show ?thesis by simp
      next
        case url: (Some url)
        obtain r s1 where r: "save_image w url folder (img_filename pid idx) s = (r, s1)"
          by (cases "save_image w url folder (img_filename pid idx) s")
        obtain r' t1 where r': "save_image w url folder (img_filename pid idx) t = (r', t1)"
          by (cases "save_image w url folder (img_filename pid idx) t")
        from save_image_log [of w url folder "img_filename pid idx" s] r
        obtain e1 where e1: "os_log s1 = os_log s @ e1" by auto
        show ?thesis
        proof (cases "\<exists>saved imgs'. r = Inr saved \<and>
            save_images w folder pid idx (src # tags) imgs s = save_images w folder pid (idx + 1) tags imgs' s1 \<and>
            (r' = r \<longrightarrow> save_images w folder pid idx (src # tags) imgs t = save_images w folder pid (idx + 1) tags imgs' t1)")
          case stop: False
          have "\<exists>e. r = Inl e"
          proof (cases r)
            case (Inl e)
            then show ?thesis by blast
          next
            case (Inr saved)
            with stop Some False url r r' have False
              by (cases saved) (auto split: if_splits)
            then show ?thesis ..
          qed
          then obtain e where e: "r = Inl e" by blast
          then have whole: "save_images w folder pid idx (src # tags) imgs s = (Inl e, s1)"
            using Some False url r by simp
          with Cons.prems(1) e1 have "ext = e1" by simp
          with Cons.prems(2) save_image_agree [of w url folder "img_filename pid idx" s e1 t] r r' e1
          have "r' = r" "os_log t1 = os_log t @ ext" by simp_all
          with whole e Some False url r' show ?thesis by simp
        next
          case go: True
          then obtain imgs' where
            a: "save_images w folder pid idx (src # tags) imgs s = save_images w folder pid (idx + 1) tags imgs' s1"
            and b: "r' = r \<Longrightarrow> save_images w folder pid idx (src # tags) imgs t = save_images w folder pid (idx + 1) tags imgs' t1"
            by blast
          from save_images_log [of w folder pid "idx + 1" tags imgs' s1]
          obtain e2 where e2: "os_log (snd (save_images w folder pid (idx + 1) tags imgs' s1)) = os_log s1 @ e2"
            by blast
          with Cons.prems(1) a e1 have ext: "ext = e1 @ e2" by simp
          with Cons.prems(2) have ag: "agree w (os_log s) (os_log t) e1"
            "agree w (os_log s @ e1) (os_log t @ e1) e2"
            by (simp_all add: agree_append)
          from save_image_agree [of w url folder "img_filename pid idx" s e1 t] ag(1) r r' e1
          have same: "r' = r" and t1: "os_log t1 = os_log t @ e1" by simp_all
          from ag(2) e1 t1 have "agree w (os_log s1) (os_log t1) e2" by simp
          from Cons.IH [OF e2 this] a b [OF same] ext t1 show ?thesis by simp
        qed
      qed
    qed
  qed
qed

lemma insert_product_products:
  "products d = products d' \<Longrightarrow> products (insert_product r d) = products (insert_product r d')"
  by (simp add: insert_product_def)

lemma extract_agree:
  assumes ext: "os_log (snd (extract_product_metadata w link main sub nested pid s)) = os_log s @ ext"
      and ag: "agree w (os_log s) (os_log t) ext"
      and pr: "products (db s) = products (db t)"
  shows "fst (extract_product_metadata w link main sub nested pid t) =
         fst (extract_product_metadata w link main sub nested pid s) \<and>
         os_log (snd (extract_product_metadata w link main sub nested pid t)) = os_log t @ ext \<and>
         products (db (snd (extract_product_metadata w link main sub nested pid s))) =
         products (db (snd (extract_product_metadata w link main sub nested pid t)))"
proof (cases "get_soup w link")
  case (Inl e)
  with ext pr show ?thesis by (simp add: extract_product_metadata_def)
next
  case (Inr page)
  let ?folder = "product_folder w main sub nested pid"
  let ?path = "json_path w main sub nested pid"
  show ?thesis
  proof (cases "refused w (Makedirs ?folder) s")
    case True
    with ext Inr have "ext = [Makedirs ?folder]" by (simp add: extract_product_metadata_def)
    with ag True have "refused w (Makedirs ?folder) t" by (simp add: refused_def)
    with True Inr pr \<open>ext = [Makedirs ?folder]\<close> show ?thesis
      by (simp add: extract_product_metadata_def)
  next
    case False
    obtain r s1 where sv:
      "save_images w ?folder pid 0 (gallery_images page) [] (logged (Makedirs ?folder) s) = (r, s1)"
      by (cases "save_images w ?folder pid 0 (gallery_images page) [] (logged (Makedirs ?folder) s)")
    obtain r' t1 where sv':
      "save_images w ?folder pid 0 (gallery_images page) [] (logged (Makedirs ?folder) t) = (r', t1)"
      by (cases "save_images w ?folder pid 0 (gallery_images page) [] (logged (Makedirs ?folder) t)")
    from save_images_log [of w ?folder pid 0 "gallery_images page" "[]" "logged (Makedirs ?folder) s"] sv
    obtain e2 where e2: "os_log s1 = os_log (logged (Makedirs ?folder) s) @ e2" by auto
    have d: "db s1 = db s" "db t1 = db t"
      using save_images_db_eq [OF sv] save_images_db_eq [OF sv'] by simp_all
    have "\<exists>e3. ext = Makedirs ?folder # e2 @ e3"
      using ext e2 False Inr sv
      by (cases r) (auto simp: extract_product_metadata_def Let_def split: if_splits)
    then obtain e3 where e3: "ext = Makedirs ?folder # e2 @ e3" by blast
    from ag have mk: "os_refuses w (os_log s) (Makedirs ?folder) = os_refuses w (os_log t) (Makedirs ?folder)"
      and ag2: "agree w (os_log (logged (Makedirs ?folder) s)) (os_log (logged (Makedirs ?folder) t)) e2"
      and ag3: "agree w (os_log s @ Makedirs ?folder # e2) (os_log t @ Makedirs ?folder # e2) e3"
      unfolding e3 by (simp_all add: agree_append)
    from mk False have nr: "\<not> refused w (Makedirs ?folder) t" by (simp add: refused_def)
    from save_images_agree [OF _ ag2, of ?folder pid 0 "gallery_images page" "[]"] sv sv' e2
    have same: "r' = r" and t1: "os_log t1 = os_log (logged (Makedirs ?folder) t) @ e2" by simp_all
    show ?thesis
    proof (cases r)
      case (Inl e)
      with ext e2 False Inr sv have "ext = Makedirs ?folder # e2"
        by (simp add: extract_product_metadata_def)
      with Inl False nr Inr sv sv' same d t1 pr show ?thesis
        by (simp add: extract_product_metadata_def)
    next
      case imgs: (Inr imgs)
      with ext e2 False Inr sv have "ext = Makedirs ?folder # e2 @ [OpenWrite ?path]"
        by (simp add: extract_product_metadata_def Let_def split: if_splits)
      with e3 have "e3 = [OpenWrite ?path]" by simp
      with ag3 e2 t1 have op: "refused w (OpenWrite ?path) t1 = refused w (OpenWrite ?path) s1"
        by (simp add: refused_def)
      from \<open>ext = Makedirs ?folder # e2 @ [OpenWrite ?path]\<close> imgs False nr Inr sv sv' same d t1 pr op
        insert_product_products [OF pr]
      show ?thesis
        by (simp add: extract_product_metadata_def Let_def)
    qed
  qed
qed

lemma process_card_agree:
  assumes sim: "crawl_sim s t"
      and ext: "os_log (written (process_card w main sub nested c s)) = os_log (written s) @ ext"
      and ag: "agree w (os_log (written s)) (os_log (written t)) ext"
  shows "crawl_sim (process_card w main sub nested c s) (process_card w main sub nested c t) \<and>
         os_log (written (process_card w main sub nested c t)) = os_log (written t) @ ext"
proof (cases "\<exists>pid link. c = Card (Some pid) (Href link) \<and> pid \<noteq> [] \<and> pid \<notin> products_seen s")
  case False
  from sim have seen: "products_seen s = products_seen t" by (simp add: crawl_sim_def)
  from False have a: "process_card w main sub nested c s = s"
    by (auto simp: process_card_def split: card.splits option.splits link_lookup.splits)
  from False seen have b: "process_card w main sub nested c t = t"
    by (auto simp: process_card_def split: card.splits option.splits link_lookup.splits)
  from ext a have "ext = []" by simp
  with a b sim show ?thesis by simp
next
  case True
  then obtain pid link where c: "c = Card (Some pid) (Href link)" "pid \<noteq> []" "pid \<notin> products_seen s"
    by blast
  from sim c(3) have c3': "pid \<notin> products_seen t" by (simp add: crawl_sim_def)
  from sim have pr: "products (db (written s)) = products (db (written t))" by (simp add: crawl_sim_def)
  from ext have ext': "os_log (snd (extract_product_metadata w link main sub nested pid (written s))) =
      os_log (written s) @ ext"
    unfolding c(1) process_card_new [OF c(2,3)] by simp
  note ex = extract_agree [OF ext' ag pr]
  show ?thesis
    unfolding c(1) process_card_new [OF c(2,3)] process_card_new [OF c(2) c3']
    using sim ex by (simp add: crawl_sim_def)
qed

lemma process_cards_agree:
  assumes "crawl_sim s t"
      and "os_log (written (process_cards w main sub nested cs s)) = os_log (written s) @ ext"
      and "agree w (os_log (written s)) (os_log (written t)) ext"
  shows "crawl_sim (process_cards w main sub nested cs s) (process_cards w main sub nested cs t) \<and>
         os_log (written (process_cards w main sub nested cs t)) = os_log (written t) @ ext"
  using assms
proof (induction cs arbitrary: s t ext)
  case Nil
  then show ?case by simp
next
  case (Cons c cs)
  from Cons.prems(1) have cnt: "crawled_count s = crawled_count t" by (simp add: crawl_sim_def)
  show ?case
  proof (cases "crawled_count s \<ge> products_per_subcategory w")
    case True
    with cnt Cons.prems show ?thesis by simp
  next
    case False
    let ?s1 = "process_card w main sub nested c s"
    let ?t1 = "process_card w main sub nested c t"
    from process_card_log [of w main sub nested c s] obtain e1 where
      e1: "os_log (written ?s1) = os_log (written s) @ e1" by blast
    from process_cards_log [of w main sub nested cs ?s1] obtain e2 where
      e2: "os_log (written (process_cards w main sub nested cs ?s1)) = os_log (written ?s1) @ e2" by blast
    from Cons.prems(2) False e1 e2 have ext: "ext = e1 @ e2" by simp
    with Cons.prems(3) have ag1: "agree w (os_log (written s)) (os_log (written t)) e1"
      and ag2: "agree w (os_log (written s) @ e1) (os_log (written t) @ e1) e2"
      by (simp_all add: agree_append)
    from process_card_agree [OF Cons.prems(1) e1 ag1]
    have sim1: "crawl_sim ?s1 ?t1" and t1: "os_log (written ?t1) = os_log (written t) @ e1" by simp_all
    from ag2 e1 t1 have "agree w (os_log (written ?s1)) (os_log (written ?t1)) e2" by simp
    from Cons.IH [OF sim1 e2 this] False cnt ext t1 show ?thesis by simp
  qed
qed

lemma crawl_loop_agree:
  assumes "crawl_loop w main sub nested ses fuel s = Some s'"
      and "crawl_sim s t"
      and "os_log (written s') = os_log (written s) @ ext"
      and "agree w (os_log (written s)) (os_log (written t)) ext"
  shows "\<exists>t'. crawl_loop w main sub nested ses fuel t = Some t' \<and> crawl_sim s' t' \<and>
              os_log (written t') = os_log (written t) @ ext"
  using assms
proof (induction fuel arbitrary: s t ext)
  case 0
  from "0.prems"(2) have cnt: "crawled_count s = crawled_count t" by (simp add: crawl_sim_def)
  from "0.prems"(1) have "s' = s" "\<not> crawled_count s < products_per_subcategory w"
    by (simp_all split: if_splits)
  with "0.prems" cnt show ?case by simp
next
  case (Suc fuel)
  from Suc.prems(2) have cnt: "crawled_count s = crawled_count t" and sc: "scrolls s = scrolls t"
    by (simp_all add: crawl_sim_def)
  show ?case
  proof (cases "crawled_count s < products_per_subcategory w")
    case False
    with Suc.prems(1) have "s' = s" by simp
    with False cnt Suc.prems show ?thesis by simp
  next
    case True
    obtain cards h where page: "after_scroll ses (scrolls s) = (cards, h)"
      by (cases "after_scroll ses (scrolls s)")
    let ?s0 = "s\<lparr>scrolls := scrolls s + 1\<rparr>"
    let ?t0 = "t\<lparr>scrolls := scrolls t + 1\<rparr>"
    let ?s1 = "process_cards w main sub nested cards ?s0"
    let ?t1 = "process_cards w main sub nested cards ?t0"
    have sim0: "crawl_sim ?s0 ?t0" using Suc.prems(2) by (simp add: crawl_sim_def)
    from process_cards_log [of w main sub nested cards ?s0] obtain e1 where
      e1: "os_log (written ?s1) = os_log (written ?s0) @ e1" by blast
    show ?thesis
    proof (cases "h = last_height ?s1")
      case same: True
      with Suc.prems(1) True page have s': "s' = ?s1" by (simp add: Let_def)
      with Suc.prems(3) e1 have "ext = e1" by simp
      with Suc.prems(4) have "agree w (os_log (written ?s0)) (os_log (written ?t0)) e1" by simp
      from process_cards_agree [OF sim0 e1 this]
      have sim1: "crawl_sim ?s1 ?t1" and t1: "os_log (written ?t1) = os_log (written ?t0) @ e1"
        by simp_all
      from sim1 have lh: "last_height ?s1 = last_height ?t1" by (simp add: crawl_sim_def)
      with True cnt sc page same sim1 t1 s' \<open>ext = e1\<close> show ?thesis by (simp add: Let_def)
    next
      case differ: False
      with Suc.prems(1) True page
      have rest: "crawl_loop w main sub nested ses fuel (?s1\<lparr>last_height := h\<rparr>) = Some s'"
        by (simp add: Let_def)
      from crawl_loop_log [OF rest] obtain e2 where
        e2: "os_log (written s') = os_log (written (?s1\<lparr>last_height := h\<rparr>)) @ e2" by blast
      with Suc.prems(3) e1 have ext: "ext = e1 @ e2" by simp
      with Suc.prems(4) have ag1: "agree w (os_log (written ?s0)) (os_log (written ?t0)) e1"
        and ag2: "agree w (os_log (written s) @ e1) (os_log (written t) @ e1) e2"
        by (simp_all add: agree_append)
      from process_cards_agree [OF sim0 e1 ag1]
      have sim1: "crawl_sim ?s1 ?t1" and t1: "os_log (written ?t1) = os_log (written ?t0) @ e1"
        by simp_all
      from sim1 have lh: "last_height ?s1 = last_height ?t1" by (simp add: crawl_sim_def)
      have sim2: "crawl_sim (?s1\<lparr>last_height := h\<rparr>) (?t1\<lparr>last_height := h\<rparr>)"
        using sim1 by (simp add: crawl_sim_def)
      have ag2': "agree w (os_log (written (?s1\<lparr>last_height := h\<rparr>)))
                    (os_log (written (?t1\<lparr>last_height := h\<rparr>))) e2"
        using ag2 e1 t1 by simp
      from Suc.IH [OF rest sim2 e2 ag2']
      obtain t' where "crawl_loop w main sub nested ses fuel (?t1\<lparr>last_height := h\<rparr>) = Some t'"
        "crawl_sim s' t'" "os_log (written t') = os_log (written (?t1\<lparr>last_height := h\<rparr>)) @ e2"
        by blast
      with True cnt sc page lh differ t1 ext show ?thesis by (simp add: Let_def)
    qed
  qed
qed

lemma crawl_products_agree:
  assumes "crawl_products w fuel url main sub nested st = Some s'"
      and "same_products st st'"
      and "os_log (written s') = os_log st @ ext"
      and "agree w (os_log st) (os_log st') ext"
  shows "\<exists>t'. crawl_products w fuel url main sub nested st' = Some t' \<and> crawl_sim s' t' \<and>
              os_log (written t') = os_log st' @ ext"
proof -
  let ?s = "\<lparr> crawled_count = 0, products_seen = {}, last_height = initial_height (browser w url),
              scrolls = 0, calls = [], written = st\<lparr>sessions := sessions st @ [url]\<rparr> \<rparr>"
  let ?t = "\<lparr> crawled_count = 0, products_seen = {}, last_height = initial_height (browser w url),
              scrolls = 0, calls = [], written = st'\<lparr>sessions := sessions st' @ [url]\<rparr> \<rparr>"
  have sim: "crawl_sim ?s ?t" using assms(2) by (simp add: crawl_sim_def same_products_def)
  have run: "crawl_loop w main sub nested (browser w url) fuel ?s = Some s'"
    using assms(1) by (simp add: crawl_products_def)
  have ext: "os_log (written s') = os_log (written ?s) @ ext" using assms(3) by simp
  have ag: "agree w (os_log (written ?s)) (os_log (written ?t)) ext" using assms(4) by simp
  from crawl_loop_agree [OF run sim ext ag] show ?thesis
    by (simp add: crawl_products_def)
qed

lemma crawl_leaves_agree:
  assumes "crawl_leaves w fuel ls st = Some st1"
      and "same_products st st'"
      and "os_log st1 = os_log st @ ext"
      and "agree w (os_log st) (os_log st') ext"
  shows "\<exists>st2. crawl_leaves w fuel ls st' = Some st2 \<and> same_products st1 st2 \<and>
               os_log st2 = os_log st' @ ext"
  using assms
proof (induction ls arbitrary: st st' ext)
  case Nil
  then show ?case by simp
next
  case (Cons leaf ls)
  obtain m s n u where leaf: "leaf = (m, s, n, u)" by (cases leaf)
  let ?row = "\<lparr>c_main_category = m, c_sub_category = s, c_url = Some u\<rparr>"
  let ?a = "st\<lparr>db := insert_category ?row (db st)\<rparr>"
  let ?b = "st'\<lparr>db := insert_category ?row (db st')\<rparr>"
  from Cons.prems(1) obtain s1 where
    s1: "crawl_products w fuel u m s n ?a = Some s1"
    and rest: "crawl_leaves w fuel ls (written s1) = Some st1"
    by (auto simp: leaf split: option.splits)
  have same: "same_products ?a ?b"
    using Cons.prems(2) by (simp add: same_products_def insert_category_products)
  from crawl_products_log [OF s1] obtain e1 where e1: "os_log (written s1) = os_log ?a @ e1" by blast
  from crawl_leaves_log [OF rest] obtain e2 where e2: "os_log st1 = os_log (written s1) @ e2" by blast
  from Cons.prems(3) e1 e2 have ext: "ext = e1 @ e2" by simp
  with Cons.prems(4) have ag1: "agree w (os_log ?a) (os_log ?b) e1"
    and ag2: "agree w (os_log st @ e1) (os_log st' @ e1) e2"
    by (simp_all add: agree_append)
  from crawl_products_agree [OF s1 same e1 ag1]
  obtain t1 where t1: "crawl_products w fuel u m s n ?b = Some t1" "crawl_sim s1 t1"
    "os_log (written t1) = os_log ?b @ e1" by blast
  have same1: "same_products (written s1) (written t1)"
    using t1(2) by (simp add: crawl_sim_def same_products_def)
  have ag2': "agree w (os_log (written s1)) (os_log (written t1)) e2"
    using ag2 e1 t1(3) by simp
  from Cons.IH [OF rest same1 e2 ag2']
  obtain st2 where "crawl_leaves w fuel ls (written t1) = Some st2" "same_products st1 st2"
    "os_log st2 = os_log (written t1) @ e2" by blast
  with t1 ext show ?case by (simp add: leaf)
qed

lemma crawl_categories_agree:
  assumes run: "crawl_categories w answer fuel st = Some (out, st1)"
      and same: "same_products st st'"
      and ext: "os_log st1 = os_log st @ ext"
      and ag: "agree w (os_log st) (os_log st') ext"
  shows "\<exists>st2. crawl_categories w answer fuel st' = Some (out, st2) \<and> same_products st1 st2"
proof (cases "get_soup w (Some (base_url w))")
  case (Inl e)
  with run same show ?thesis by (auto simp: crawl_categories_def)
next
  case (Inr page)
  show ?thesis
  proof (cases "parse_categories w page")
    case (Inl e)
    with Inr run same show ?thesis by (auto simp: crawl_categories_def)
  next
    case cats: (Inr cats)
    show ?thesis
    proof (cases "affirmative w answer")
      case False
      with Inr cats run same show ?thesis by (auto simp: crawl_categories_def)
    next
      case True
      with Inr cats run have leaves: "crawl_leaves w fuel (leaf_list cats) st = Some st1" and out: "out = Ok"
        by (auto simp: crawl_categories_def)
      from crawl_leaves_agree [OF leaves same ext ag]
      show ?thesis by (auto simp: crawl_categories_def Inr cats True out)
    qed
  qed
qed

lemma crawl_categories_prefix:
  assumes "crawl_categories w answer fuel st = Some (out, st')"
  shows "\<exists>new. categories (db st') = categories (db st) @ new"
proof (cases "\<exists>cats. crawl_leaves w fuel (leaf_list cats) st = Some st'")
  case True
  then show ?thesis using crawl_leaves_prefix by blast
next
  case False
  with assms have "st' = st"
    by (auto simp: crawl_categories_def split: sum.splits if_splits)
  then show ?thesis by simp
qed



lemma module_init_old_db:
  "\<lparr> db = module_init old_db, files = Map.empty, sessions = [], os_log = [] \<rparr> = state0"
  by (simp add: module_init_def old_db_def state0_def)

lemma shop_history_free: "history_free shop"
  by (simp add: history_free_def shop_def)


section \<open>The shop with slashes\<close>

lemma slash_fields:
  "tables slash_shop = ascii" "base_url slash_shop = lit ''x''"
  "products_per_subcategory slash_shop = 2" "urljoin slash_shop b r = Some (b @ r)"
  "browser slash_shop a = slash_session" "os_refuses slash_shop = needs_directory"
  by (simp_all add: slash_shop_def shop_def)

lemma slash_pages:
  "pages slash_shop (lit ''x'') = Some slash_nav_page"
  "pages slash_shop (lit ''x/B1'') = Some blank_page"
  by (simp_all add: slash_shop_def lit_def)

lemma slash_parse:
  "parse_categories slash_shop slash_nav_page = Inr [(lit ''M'', [(lit ''S'', [(lit ''N'', lit ''x/n'')])])]"
  by (simp add: parse_categories_def slash_nav_page_def blank_page_def slash_fields strip_examples)
     (simp add: lit_def)

lemma slash_affirmative: "affirmative slash_shop (lit '' Yes '')"
  by (simp add: affirmative_def slash_fields strip_examples lower_examples)

lemma slash_paths:
  "product_folder slash_shop (lit ''M'') (lit ''S'') (lit ''N'') (lit ''a/b'') = lit ''assets/M/S/N/a/b''"
  "product_folder slash_shop (lit ''M'') (lit ''S'') (lit ''N'') (lit ''a/b/a'') = lit ''assets/M/S/N/a/b/a''"
  "json_path slash_shop (lit ''M'') (lit ''S'') (lit ''N'') (lit ''a/b'') = lit ''assets/M/S/N/a/b/a/b.json''"
  "json_path slash_shop (lit ''M'') (lit ''S'') (lit ''N'') (lit ''a/b/a'') = lit ''assets/M/S/N/a/b/a/a/b/a.json''"
  by (simp_all add: json_path_def product_folder_def slash_fields sanitize_examples)
     (simp_all add: os_path_join_def path_join2_def lit_def)

lemma slash_parents:
  "parent (lit ''assets/M/S/N/a/b/a/b.json'') = lit ''assets/M/S/N/a/b/a''"
  "parent (lit ''assets/M/S/N/a/b/a/a/b/a.json'') = lit ''assets/M/S/N/a/b/a/a/b''"
  by (simp_all add: parent_def lit_def)

text \<open>An extraction of the blank page in this shop succeeds exactly when the directory of the document exists.\<close>

lemma slash_extract:
  "extract_product_metadata slash_shop (Some (lit ''x/B1'')) main sub nested pid st =
     (let folder = product_folder slash_shop main sub nested pid;
          path = json_path slash_shop main sub nested pid;
          st1 = logged (Makedirs folder) st
      in if dir_exists (os_log st1) (parent path)
         then (Ok, (logged (OpenWrite path) st1)
                 \<lparr>files := (files st)(path \<mapsto> JsonFile (page_metadata slash_shop blank_page main sub nested pid [])),
                   db := insert_product
                           (product_values (page_metadata slash_shop blank_page main sub nested pid []) path)
                           (db st)\<rparr>)
         else (Raised OSError, logged (OpenWrite path) st1))"
proof -
  have g: "gallery_images blank_page = []" by (simp add: blank_page_def)
  show ?thesis
    by (simp add: extract_product_metadata_def get_soup_Some [OF slash_pages(2)] g refused_def
        slash_fields needs_directory_def Let_def)
qed

lemma slash_dirs:
  "\<not> dir_exists [Makedirs (lit ''assets/M/S/N/a/b'')] (lit ''assets/M/S/N/a/b/a'')"
  "\<not> dir_exists [Makedirs (lit ''assets/M/S/N/a/b''), OpenWrite (lit ''assets/M/S/N/a/b/a/b.json''),
                  Makedirs (lit ''assets/M/S/N/a/b/a'')] (lit ''assets/M/S/N/a/b/a/a/b'')"
  "dir_exists [Makedirs (lit ''assets/M/S/N/a/b''), OpenWrite (lit ''assets/M/S/N/a/b/a/b.json''),
               Makedirs (lit ''assets/M/S/N/a/b/a''), OpenWrite (lit ''assets/M/S/N/a/b/a/a/b/a.json''),
               Makedirs (lit ''assets/M/S/N/a/b'')] (lit ''assets/M/S/N/a/b/a'')"
  "\<not> dir_exists [Makedirs (lit ''assets/M/S/N/a/b''), OpenWrite (lit ''assets/M/S/N/a/b/a/b.json''),
               Makedirs (lit ''assets/M/S/N/a/b/a''), OpenWrite (lit ''assets/M/S/N/a/b/a/a/b/a.json''),
               Makedirs (lit ''assets/M/S/N/a/b''), OpenWrite (lit ''assets/M/S/N/a/b/a/b.json''),
               Makedirs (lit ''assets/M/S/N/a/b/a'')] (lit ''assets/M/S/N/a/b/a/a/b'')"
  by (simp_all add: dir_exists_def made_dirs_def lit_def)

lemma slash_ids: "lit ''a/b'' \<noteq> []" "lit ''a/b/a'' \<noteq> []" "lit ''a/b/a'' \<noteq> lit ''a/b''"
  by (simp_all add: lit_def)

lemma slash_first_run:
  "run_script slash_shop (lit '' Yes '') 1 empty_db Map.empty [] =
     Some (Ok,
       \<lparr> db = \<lparr> categories = [\<lparr>c_main_category = lit ''M'', c_sub_category = lit ''S'',
                                 c_url = Some (lit ''x/n'')\<rparr>],
                 products = [] \<rparr>,
         files = Map.empty,
         sessions = [lit ''x/n''],
         os_log = [Makedirs (lit ''assets/M/S/N/a/b''), OpenWrite (lit ''assets/M/S/N/a/b/a/b.json''),
                   Makedirs (lit ''assets/M/S/N/a/b/a''), OpenWrite (lit ''assets/M/S/N/a/b/a/a/b/a.json'')] \<rparr>)"
  by (simp add: run_script_def crawl_categories_def get_soup_Some [OF slash_pages(1)] slash_fields
      slash_parse slash_affirmative leaf_list_def crawl_products_def slash_session_def
      process_card_new slash_ids slash_extract slash_paths slash_parents slash_dirs
      module_init_def empty_db_def insert_category_def logged_def Let_def)

lemma slash_second_run:
  "map_option (map p_product_id \<circ> products \<circ> db \<circ> snd)
     (run_script slash_shop (lit '' Yes '') 1
        (stored \<lparr> categories = [\<lparr>c_main_category = lit ''M'', c_sub_category = lit ''S'',
                                  c_url = Some (lit ''x/n'')\<rparr>],
                  products = [] \<rparr>)
        Map.empty
        [Makedirs (lit ''assets/M/S/N/a/b''), OpenWrite (lit ''assets/M/S/N/a/b/a/b.json''),
         Makedirs (lit ''assets/M/S/N/a/b/a''), OpenWrite (lit ''assets/M/S/N/a/b/a/a/b/a.json'')]) =
   Some [lit ''a/b'']"
  by (simp add: run_script_def crawl_categories_def get_soup_Some [OF slash_pages(1)] slash_fields
      slash_parse slash_affirmative leaf_list_def crawl_products_def slash_session_def
      process_card_new slash_ids slash_extract slash_paths slash_parents slash_dirs
      module_init_def stored_def insert_category_def insert_product_def category_key_def
      product_values_def page_metadata_def logged_def Let_def)


end
